theory Spec2Isabelle
  imports Main "HOL-Library.Word" "HOL-Library.Signed_Division"
begin

section \<open>Address collections (filter.go, lines 12-64)\<close>

text \<open>
  The address records of package \<^verbatim>\<open>net\<close>. A \<^verbatim>\<open>net.IP\<close> is a byte slice; only its
  length is ever inspected by the filters. The collections of the source hold pointers
  to such records; the pointers are taken to be non-nil, as the resolver produces them,
  so an element is modelled by the record it points to.

  The integers of the program (\<^verbatim>\<open>int\<close>) are modelled by \<open>int\<close>. No computation of the
  filters leaves the range of the machine type: indices and counters lie between \<open>-1\<close>
  and the length of the input, and the quotas of \<open>MaxAddrsFilter\<close> are bounded by \<open>max\<close>
  and the counts (lemma \<open>Max_quota_range\<close>). Division is Go's, truncating toward zero.
\<close>

type_synonym net_IP = "8 word list"

record TCPAddr =
  tcp_IP :: net_IP
  tcp_Port :: int
  tcp_Zone :: string

record UDPAddr =
  udp_IP :: net_IP
  udp_Port :: int
  udp_Zone :: string

record IPAddr =
  ipa_IP :: net_IP
  ipa_Zone :: string

record UnixAddr =
  unix_Name :: string
  unix_Net :: string

text \<open>
  The four concrete collection types that implement the interface \<^verbatim>\<open>Addrs\<close>. A value
  of the interface type is either nil or one of them: \<open>None\<close> is the nil interface.
  The method \<^verbatim>\<open>Addr\<close>, the string form of an address, is called by no filter and is
  left out.
\<close>

datatype addrs_impl =
    tcpAddrs "TCPAddr list"
  | udpAddrs "UDPAddr list"
  | ipAddrs "IPAddr list"
  | unixAddrs "UnixAddr list"

type_synonym Addrs = "addrs_impl option"

text \<open>
  A run-time panic of the Go program: an index out of range, or a method call on a nil
  interface value.
\<close>

datatype panic = IndexOutOfRange | NilDereference

type_synonym AddrsFilter = "Addrs \<Rightarrow> panic + Addrs"

definition IPv4len :: int where
  "IPv4len = 4"

definition IPv6len :: int where
  "IPv6len = 16"

text \<open>The slice read \<^verbatim>\<open>a[i]\<close>, which panics outside \<open>0 \<le> i < len(a)\<close>.\<close>

definition index :: "'a list \<Rightarrow> int \<Rightarrow> panic + 'a" where
  "index a i = (if 0 \<le> i \<and> i < int (length a) then Inr (a ! nat i) else Inl IndexOutOfRange)"

fun Len :: "Addrs \<Rightarrow> panic + int" where
  "Len None = Inl NilDereference"
| "Len (Some (tcpAddrs a)) = Inr (int (length a))"
| "Len (Some (udpAddrs a)) = Inr (int (length a))"
| "Len (Some (ipAddrs a)) = Inr (int (length a))"
| "Len (Some (unixAddrs a)) = Inr (int (length a))"

fun IP :: "Addrs \<Rightarrow> int \<Rightarrow> panic + net_IP" where
  "IP None i = Inl NilDereference"
| "IP (Some (tcpAddrs a)) i = (case index a i of Inl e \<Rightarrow> Inl e | Inr x \<Rightarrow> Inr (tcp_IP x))"
| "IP (Some (udpAddrs a)) i = (case index a i of Inl e \<Rightarrow> Inl e | Inr x \<Rightarrow> Inr (udp_IP x))"
| "IP (Some (ipAddrs a)) i = (case index a i of Inl e \<Rightarrow> Inl e | Inr x \<Rightarrow> Inr (ipa_IP x))"
| "IP (Some (unixAddrs a)) i = Inr []"

text \<open>
  \<^verbatim>\<open>t, _ := addrs.(tcpAddrs); return append(t, a[i])\<close>: the type assertion yields the
  nil slice when \<^verbatim>\<open>addrs\<close> is nil or of another concrete type, and its failure is
  ignored.
\<close>

fun Append :: "Addrs \<Rightarrow> Addrs \<Rightarrow> int \<Rightarrow> panic + Addrs" where
  "Append None addrs i = Inl NilDereference"
| "Append (Some (tcpAddrs a)) addrs i =
     (let t = (case addrs of Some (tcpAddrs t) \<Rightarrow> t | _ \<Rightarrow> [])
      in case index a i of Inl e \<Rightarrow> Inl e | Inr x \<Rightarrow> Inr (Some (tcpAddrs (t @ [x]))))"
| "Append (Some (udpAddrs a)) addrs i =
     (let t = (case addrs of Some (udpAddrs t) \<Rightarrow> t | _ \<Rightarrow> [])
      in case index a i of Inl e \<Rightarrow> Inl e | Inr x \<Rightarrow> Inr (Some (udpAddrs (t @ [x]))))"
| "Append (Some (ipAddrs a)) addrs i =
     (let t = (case addrs of Some (ipAddrs t) \<Rightarrow> t | _ \<Rightarrow> [])
      in case index a i of Inl e \<Rightarrow> Inl e | Inr x \<Rightarrow> Inr (Some (ipAddrs (t @ [x]))))"
| "Append (Some (unixAddrs a)) addrs i =
     (let t = (case addrs of Some (unixAddrs t) \<Rightarrow> t | _ \<Rightarrow> [])
      in case index a i of Inl e \<Rightarrow> Inl e | Inr x \<Rightarrow> Inr (Some (unixAddrs (t @ [x]))))"

section \<open>The filters (filter.go, lines 66-289)\<close>

subsection \<open>DefaultAddrsFilter\<close>

text \<open>
  The loop of lines 78-84 together with the code after it (lines 85-88): \<open>ipv6\<close> is the
  index of the first IPv6 address seen so far, or \<open>-1\<close>.
\<close>

function Default_loop :: "Addrs \<Rightarrow> int \<Rightarrow> int \<Rightarrow> int \<Rightarrow> panic + Addrs" where
  "Default_loop addrs addrsLen ipv6 i =
     (if i < addrsLen then
        (case IP addrs i of
           Inl e \<Rightarrow> Inl e
         | Inr ip \<Rightarrow>
             (let ipLen = int (length ip) in
              if ipLen = IPv4len then Append addrs None i
              else if ipv6 < 0 \<and> ipLen = IPv6len then Default_loop addrs addrsLen i (i + 1)
              else Default_loop addrs addrsLen ipv6 (i + 1)))
      else if ipv6 = - 1 then Inr None
      else Append addrs None ipv6)"
  by pat_completeness auto
termination
  by (relation "measure (\<lambda>(addrs, addrsLen, ipv6, i). nat (addrsLen - i))") auto

definition DefaultAddrsFilter :: AddrsFilter where
  "DefaultAddrsFilter addrs =
     (if addrs = None then Inr None
      else case Len addrs of
             Inl e \<Rightarrow> Inl e
           | Inr addrsLen \<Rightarrow>
               if addrsLen \<le> 1 then Inr addrs
               else Default_loop addrs addrsLen (- 1) 0)"

subsection \<open>NoAddrsFilter and FirstAddrsFilter\<close>

definition NoAddrsFilter :: AddrsFilter where
  "NoAddrsFilter addrs = Inr addrs"

definition FirstAddrsFilter :: AddrsFilter where
  "FirstAddrsFilter addrs =
     (if addrs = None then Inr None
      else case Len addrs of
             Inl e \<Rightarrow> Inl e
           | Inr addrsLen \<Rightarrow>
               if addrsLen \<le> 1 then Inr addrs
               else Append addrs None 0)"

subsection \<open>FirstEachAddrsFilter\<close>

text \<open>
  The loop of lines 122-133. Its state is the two flags, the accumulator \<open>a\<close> and the
  index \<open>i\<close>; the function returns the index at which the loop is left together with the
  accumulator, so that the early \<^verbatim>\<open>break\<close> is visible in the result.
\<close>

function FirstEach_loop ::
  "Addrs \<Rightarrow> int \<Rightarrow> bool \<Rightarrow> bool \<Rightarrow> Addrs \<Rightarrow> int \<Rightarrow> panic + (int \<times> Addrs)" where
  "FirstEach_loop addrs addrsLen ipv4 ipv6 a i =
     (if i < addrsLen then
        (case IP addrs i of
           Inl e \<Rightarrow> Inl e
         | Inr ip \<Rightarrow>
             (let ipLen = int (length ip) in
              case (if \<not> ipv4 \<and> ipLen = IPv4len then
                      (case Append addrs a i of
                         Inl e \<Rightarrow> Inl e
                       | Inr a' \<Rightarrow> Inr (True, ipv6, a'))
                    else if \<not> ipv6 \<and> ipLen = IPv6len then
                      (case Append addrs a i of
                         Inl e \<Rightarrow> Inl e
                       | Inr a' \<Rightarrow> Inr (ipv4, True, a'))
                    else Inr (ipv4, ipv6, a)) of
                Inl e \<Rightarrow> Inl e
              | Inr (ipv4', ipv6', a') \<Rightarrow>
                  if ipv4' \<and> ipv6' then Inr (i, a')
                  else FirstEach_loop addrs addrsLen ipv4' ipv6' a' (i + 1)))
      else Inr (i, a))"
  by pat_completeness auto
termination
  by (relation "measure (\<lambda>(addrs, addrsLen, ipv4, ipv6, a, i). nat (addrsLen - i))") auto

definition FirstEachAddrsFilter :: AddrsFilter where
  "FirstEachAddrsFilter addrs =
     (if addrs = None then Inr None
      else case Len addrs of
             Inl e \<Rightarrow> Inl e
           | Inr addrsLen \<Rightarrow>
               if addrsLen \<le> 1 then Inr addrs
               else (case FirstEach_loop addrs addrsLen False False None 0 of
                       Inl e \<Rightarrow> Inl e
                     | Inr (i, a) \<Rightarrow> Inr a))"

subsection \<open>FirstIPv4AddrsFilter and FirstIPv6AddrsFilter\<close>

text \<open>
  The two functions differ only in the length compared with; the loop takes it as the
  parameter \<open>want\<close>.
\<close>

function FirstIP_loop :: "int \<Rightarrow> Addrs \<Rightarrow> int \<Rightarrow> int \<Rightarrow> panic + Addrs" where
  "FirstIP_loop want addrs addrsLen i =
     (if i < addrsLen then
        (case IP addrs i of
           Inl e \<Rightarrow> Inl e
         | Inr ip \<Rightarrow>
             if int (length ip) = want then Append addrs None i
             else FirstIP_loop want addrs addrsLen (i + 1))
      else Inr None)"
  by pat_completeness auto
termination
  by (relation "measure (\<lambda>(want, addrs, addrsLen, i). nat (addrsLen - i))") auto

definition FirstIPv4AddrsFilter :: AddrsFilter where
  "FirstIPv4AddrsFilter addrs =
     (if addrs = None then Inr None
      else case Len addrs of
             Inl e \<Rightarrow> Inl e
           | Inr addrsLen \<Rightarrow> FirstIP_loop IPv4len addrs addrsLen 0)"

definition FirstIPv6AddrsFilter :: AddrsFilter where
  "FirstIPv6AddrsFilter addrs =
     (if addrs = None then Inr None
      else case Len addrs of
             Inl e \<Rightarrow> Inl e
           | Inr addrsLen \<Rightarrow> FirstIP_loop IPv6len addrs addrsLen 0)"

subsection \<open>IPv4AddrsFilter and IPv6AddrsFilter\<close>

function AllIP_loop :: "int \<Rightarrow> Addrs \<Rightarrow> int \<Rightarrow> Addrs \<Rightarrow> int \<Rightarrow> panic + Addrs" where
  "AllIP_loop want addrs addrsLen a i =
     (if i < addrsLen then
        (case IP addrs i of
           Inl e \<Rightarrow> Inl e
         | Inr ip \<Rightarrow>
             if int (length ip) = want then
               (case Append addrs a i of
                  Inl e \<Rightarrow> Inl e
                | Inr a' \<Rightarrow> AllIP_loop want addrs addrsLen a' (i + 1))
             else AllIP_loop want addrs addrsLen a (i + 1))
      else Inr a)"
  by pat_completeness auto
termination
  by (relation "measure (\<lambda>(want, addrs, addrsLen, a, i). nat (addrsLen - i))") auto

definition IPv4AddrsFilter :: AddrsFilter where
  "IPv4AddrsFilter addrs =
     (if addrs = None then Inr None
      else case Len addrs of
             Inl e \<Rightarrow> Inl e
           | Inr addrsLen \<Rightarrow> AllIP_loop IPv4len addrs addrsLen None 0)"

definition IPv6AddrsFilter :: AddrsFilter where
  "IPv6AddrsFilter addrs =
     (if addrs = None then Inr None
      else case Len addrs of
             Inl e \<Rightarrow> Inl e
           | Inr addrsLen \<Rightarrow> AllIP_loop IPv6len addrs addrsLen None 0)"

subsection \<open>MaxAddrsFilter\<close>

text \<open>The counting loop of lines 211-217.\<close>

function Max_count :: "Addrs \<Rightarrow> int \<Rightarrow> int \<Rightarrow> int \<Rightarrow> int \<Rightarrow> panic + (int \<times> int)" where
  "Max_count addrs addrsLen ipv4 ipv6 i =
     (if i < addrsLen then
        (case IP addrs i of
           Inl e \<Rightarrow> Inl e
         | Inr ip \<Rightarrow>
             (let ipLen = int (length ip) in
              if ipLen = IPv4len then Max_count addrs addrsLen (ipv4 + 1) ipv6 (i + 1)
              else if ipLen = IPv6len then Max_count addrs addrsLen ipv4 (ipv6 + 1) (i + 1)
              else Max_count addrs addrsLen ipv4 ipv6 (i + 1)))
      else Inr (ipv4, ipv6))"
  by pat_completeness auto
termination
  by (relation "measure (\<lambda>(addrs, addrsLen, ipv4, ipv6, i). nat (addrsLen - i))") auto

text \<open>
  The quotas of lines 218-225. Go's integer division truncates toward zero, which is
  \<open>sdiv\<close> on \<open>int\<close>.
\<close>

definition Max_quota :: "int \<Rightarrow> int \<Rightarrow> int \<Rightarrow> int \<times> int" where
  "Max_quota max' ipv4 ipv6 =
     (let halfLen = max' sdiv 2 in
      if ipv6 \<le> halfLen then (max' - ipv6, ipv6)
      else if ipv4 \<le> halfLen then (ipv4, max' - ipv4)
      else (max' - halfLen, halfLen))"

text \<open>The selecting loop of lines 227-235.\<close>

function Max_select :: "Addrs \<Rightarrow> int \<Rightarrow> int \<Rightarrow> int \<Rightarrow> Addrs \<Rightarrow> int \<Rightarrow> panic + Addrs" where
  "Max_select addrs addrsLen ipv4 ipv6 a i =
     (if i < addrsLen then
        (case IP addrs i of
           Inl e \<Rightarrow> Inl e
         | Inr ip \<Rightarrow>
             (let ipLen = int (length ip) in
              if ipv4 > 0 \<and> ipLen = IPv4len then
                (case Append addrs a i of
                   Inl e \<Rightarrow> Inl e
                 | Inr a' \<Rightarrow> Max_select addrs addrsLen (ipv4 - 1) ipv6 a' (i + 1))
              else if ipv6 > 0 \<and> ipLen = IPv6len then
                (case Append addrs a i of
                   Inl e \<Rightarrow> Inl e
                 | Inr a' \<Rightarrow> Max_select addrs addrsLen ipv4 (ipv6 - 1) a' (i + 1))
              else Max_select addrs addrsLen ipv4 ipv6 a (i + 1)))
      else Inr a)"
  by pat_completeness auto
termination
  by (relation "measure (\<lambda>(addrs, addrsLen, ipv4, ipv6, a, i). nat (addrsLen - i))") auto

definition MaxAddrsFilter :: "int \<Rightarrow> AddrsFilter" where
  "MaxAddrsFilter max' addrs =
     (if addrs = None then Inr None
      else case Len addrs of
             Inl e \<Rightarrow> Inl e
           | Inr addrsLen \<Rightarrow>
               if addrsLen \<le> max' then Inr addrs
               else (case Max_count addrs addrsLen 0 0 0 of
                       Inl e \<Rightarrow> Inl e
                     | Inr (n4, n6) \<Rightarrow>
                         (case Max_quota max' n4 n6 of
                            (ipv4, ipv6) \<Rightarrow> Max_select addrs addrsLen ipv4 ipv6 None 0)))"

subsection \<open>ReverseAddrsFilter and ShuffleAddrsFilter\<close>

function Reverse_loop :: "Addrs \<Rightarrow> Addrs \<Rightarrow> int \<Rightarrow> panic + Addrs" where
  "Reverse_loop addrs a i =
     (if i \<ge> 0 then
        (case Append addrs a i of
           Inl e \<Rightarrow> Inl e
         | Inr a' \<Rightarrow> Reverse_loop addrs a' (i - 1))
      else Inr a)"
  by pat_completeness auto
termination
  by (relation "measure (\<lambda>(addrs, a, i). nat (i + 1))") auto

definition ReverseAddrsFilter :: AddrsFilter where
  "ReverseAddrsFilter addrs =
     (if addrs = None then Inr None
      else case Len addrs of
             Inl e \<Rightarrow> Inl e
           | Inr addrsLen \<Rightarrow>
               if addrsLen \<le> 1 then Inr addrs
               else Reverse_loop addrs None (addrsLen - 1))"

text \<open>
  \<^verbatim>\<open>rand.Perm\<close> belongs to the standard library and draws from the global random
  source; the filter takes it as the parameter \<open>Perm\<close>, the function from \<open>n\<close> to the
  permutation of \<open>0, ..., n-1\<close> that the call returns.
\<close>

fun Shuffle_loop :: "Addrs \<Rightarrow> Addrs \<Rightarrow> int list \<Rightarrow> panic + Addrs" where
  "Shuffle_loop addrs a [] = Inr a"
| "Shuffle_loop addrs a (i # rest) =
     (case Append addrs a i of
        Inl e \<Rightarrow> Inl e
      | Inr a' \<Rightarrow> Shuffle_loop addrs a' rest)"

definition ShuffleAddrsFilter :: "(int \<Rightarrow> int list) \<Rightarrow> AddrsFilter" where
  "ShuffleAddrsFilter Perm addrs =
     (if addrs = None then Inr None
      else case Len addrs of
             Inl e \<Rightarrow> Inl e
           | Inr addrsLen \<Rightarrow>
               if addrsLen \<le> 1 then Inr addrs
               else Shuffle_loop addrs None (Perm addrsLen))"

subsection \<open>ComposeAddrsFilters\<close>

text \<open>
  The range loop over \<^verbatim>\<open>filters\<close>, reassigning \<^verbatim>\<open>addrs\<close>; a panic of one stage ends
  the whole call.
\<close>

fun ComposeAddrsFilters :: "AddrsFilter list \<Rightarrow> AddrsFilter" where
  "ComposeAddrsFilters [] addrs = Inr addrs"
| "ComposeAddrsFilters (f # filters) addrs =
     (case f addrs of
        Inl e \<Rightarrow> Inl e
      | Inr addrs' \<Rightarrow> ComposeAddrsFilters filters addrs')"

declare Default_loop.simps [simp del] FirstEach_loop.simps [simp del]
  FirstIP_loop.simps [simp del] AllIP_loop.simps [simp del] Max_count.simps [simp del]
  Max_select.simps [simp del] Reverse_loop.simps [simp del]

section \<open>Observing collections\<close>

text \<open>
  The filters never look inside a concrete collection type; the statements below do not
  either. A collection is observed through its concrete type (\<open>family_of\<close>) and the
  sequence of its elements (\<open>elems\<close>); the IP of an element is what the accessor
  \<^verbatim>\<open>IP\<close> of its collection type returns for it, nil for a Unix address.
\<close>

datatype family = TCP | UDP | RawIP | Unix

fun family_of :: "addrs_impl \<Rightarrow> family" where
  "family_of (tcpAddrs a) = TCP"
| "family_of (udpAddrs a) = UDP"
| "family_of (ipAddrs a) = RawIP"
| "family_of (unixAddrs a) = Unix"

datatype addr = TCP_addr TCPAddr | UDP_addr UDPAddr | IP_addr IPAddr | Unix_addr UnixAddr

fun elems :: "addrs_impl \<Rightarrow> addr list" where
  "elems (tcpAddrs a) = map TCP_addr a"
| "elems (udpAddrs a) = map UDP_addr a"
| "elems (ipAddrs a) = map IP_addr a"
| "elems (unixAddrs a) = map Unix_addr a"

fun addr_IP :: "addr \<Rightarrow> net_IP" where
  "addr_IP (TCP_addr x) = tcp_IP x"
| "addr_IP (UDP_addr x) = udp_IP x"
| "addr_IP (IP_addr x) = ipa_IP x"
| "addr_IP (Unix_addr x) = []"

definition isIPv4 :: "addr \<Rightarrow> bool" where
  "isIPv4 x = (int (length (addr_IP x)) = IPv4len)"

definition isIPv6 :: "addr \<Rightarrow> bool" where
  "isIPv6 x = (int (length (addr_IP x)) = IPv6len)"

text \<open>The elements of an interface value; the absent collection has none.\<close>

fun elems_of :: "Addrs \<Rightarrow> addr list" where
  "elems_of None = []"
| "elems_of (Some c) = elems c"

text \<open>A result is of the family of \<open>c\<close> when it is absent or of the same concrete type.\<close>

fun same_family :: "addrs_impl \<Rightarrow> Addrs \<Rightarrow> bool" where
  "same_family c None = True"
| "same_family c (Some r) = (family_of r = family_of c)"

text \<open>
  \<open>pick c js\<close> is the collection of the type of \<open>c\<close> that holds the elements of \<open>c\<close> at
  the indices \<open>js\<close>, in that order; \<open>acc c js\<close> is the accumulator variable \<^verbatim>\<open>a\<close> of the
  loops after the indices \<open>js\<close> have been appended to it: nil as long as there are none.
\<close>

fun pick :: "addrs_impl \<Rightarrow> nat list \<Rightarrow> addrs_impl" where
  "pick (tcpAddrs a) js = tcpAddrs (map (nth a) js)"
| "pick (udpAddrs a) js = udpAddrs (map (nth a) js)"
| "pick (ipAddrs a) js = ipAddrs (map (nth a) js)"
| "pick (unixAddrs a) js = unixAddrs (map (nth a) js)"

definition acc :: "addrs_impl \<Rightarrow> nat list \<Rightarrow> Addrs" where
  "acc c js = (if js = [] then None else Some (pick c js))"

section \<open>Example addresses\<close>

definition v4a :: TCPAddr where
  "v4a = \<lparr>tcp_IP = [192, 0, 2, 1], tcp_Port = 80, tcp_Zone = []\<rparr>"

definition v4b :: TCPAddr where
  "v4b = \<lparr>tcp_IP = [192, 0, 2, 2], tcp_Port = 80, tcp_Zone = []\<rparr>"

definition v4c :: TCPAddr where
  "v4c = \<lparr>tcp_IP = [192, 0, 2, 3], tcp_Port = 80, tcp_Zone = []\<rparr>"

definition v6a :: TCPAddr where
  "v6a = \<lparr>tcp_IP = [32, 1, 13, 184, 0, 0, 0, 0, 0, 0, 0, 0, 0, 0, 0, 1],
          tcp_Port = 80, tcp_Zone = []\<rparr>"

definition v6b :: TCPAddr where
  "v6b = \<lparr>tcp_IP = [32, 1, 13, 184, 0, 0, 0, 0, 0, 0, 0, 0, 0, 0, 0, 2],
          tcp_Port = 80, tcp_Zone = []\<rparr>"

definition u4 :: UDPAddr where
  "u4 = \<lparr>udp_IP = [192, 0, 2, 9], udp_Port = 53, udp_Zone = []\<rparr>"

definition sock :: UnixAddr where
  "sock = \<lparr>unix_Name = ''/tmp/s'', unix_Net = ''unix''\<rparr>"

text \<open>The collection of the scenario of the specification: three IPv4, then two IPv6.\<close>

definition scenario :: addrs_impl where
  "scenario = tcpAddrs [v4a, v4b, v4c, v6a, v6b]"

section \<open>Sequencing\<close>

text \<open>
  Sequencing of two computations that may panic: the second runs on the result of the
  first, and a panic of the first is the panic of both.
\<close>

definition and_then :: "panic + 'a \<Rightarrow> ('a \<Rightarrow> panic + 'b) \<Rightarrow> panic + 'b" where
  "and_then r g = (case r of Inl e \<Rightarrow> Inl e | Inr v \<Rightarrow> g v)"

section \<open>The filter library\<close>

text \<open>
  What a call of \<^verbatim>\<open>rand.Perm\<close> returns: for \<open>n \<ge> 0\<close>, a permutation of the integers
  \<open>0, ..., n - 1\<close>.
\<close>

definition is_Perm :: "(int \<Rightarrow> int list) \<Rightarrow> bool" where
  "is_Perm Perm = (\<forall>n\<ge>0. distinct (Perm n) \<and> set (Perm n) = {0..<n})"

text \<open>One such function, used as an example below.\<close>

definition descending :: "int \<Rightarrow> int list" where
  "descending n = rev [0..n - 1]"

text \<open>
  The filters of the library: the named filters, every \<open>MaxAddrsFilter max\<close>,
  \<open>ShuffleAddrsFilter\<close> with any source of permutations, and every composition of such
  filters.
\<close>

inductive library_filter :: "AddrsFilter \<Rightarrow> bool" where
  Default: "library_filter DefaultAddrsFilter"
| No: "library_filter NoAddrsFilter"
| First: "library_filter FirstAddrsFilter"
| FirstEach: "library_filter FirstEachAddrsFilter"
| FirstIPv4: "library_filter FirstIPv4AddrsFilter"
| FirstIPv6: "library_filter FirstIPv6AddrsFilter"
| IPv4: "library_filter IPv4AddrsFilter"
| IPv6: "library_filter IPv6AddrsFilter"
| Max: "library_filter (MaxAddrsFilter max')"
| Reverse: "library_filter ReverseAddrsFilter"
| Shuffle: "is_Perm Perm \<Longrightarrow> library_filter (ShuffleAddrsFilter Perm)"
| Compose: "\<forall>f \<in> set filters. library_filter f \<Longrightarrow> library_filter (ComposeAddrsFilters filters)"

section \<open>Auxiliary notions for MaxAddrsFilter\<close>

text \<open>
  The selecting loop of \<open>MaxAddrsFilter\<close> as a function on the list of the indices still
  to visit, returning the indices it appends; \<open>p4\<close> and \<open>p6\<close> tell whether the address at
  an index is IPv4 or IPv6.
\<close>

fun select_scan :: "(nat \<Rightarrow> bool) \<Rightarrow> (nat \<Rightarrow> bool) \<Rightarrow> int \<Rightarrow> int \<Rightarrow> nat list \<Rightarrow> nat list" where
  "select_scan p4 p6 ipv4 ipv6 [] = []"
| "select_scan p4 p6 ipv4 ipv6 (j # js) =
     (if ipv4 > 0 \<and> p4 j then j # select_scan p4 p6 (ipv4 - 1) ipv6 js
      else if ipv6 > 0 \<and> p6 j then j # select_scan p4 p6 ipv4 (ipv6 - 1) js
      else select_scan p4 p6 ipv4 ipv6 js)"

text \<open>The quotas that \<open>MaxAddrsFilter\<close> computes for a collection with the elements \<open>xs\<close>.\<close>

definition Max_quota_of :: "int \<Rightarrow> addr list \<Rightarrow> int \<times> int" where
  "Max_quota_of max' xs =
     Max_quota max' (int (length (filter isIPv4 xs))) (int (length (filter isIPv6 xs)))"

section \<open>Selections described by position\<close>

text \<open>
  \<open>earliest k4 k6 xs\<close> holds the elements of \<open>xs\<close> that are among the first \<open>k4\<close> IPv4
  addresses or among the first \<open>k6\<close> IPv6 addresses of \<open>xs\<close>, in the order in which they
  stand in \<open>xs\<close>: position \<open>i\<close> is kept when fewer than \<open>k4\<close> (\<open>k6\<close>) addresses of its
  family stand before it.
\<close>

definition earliest :: "nat \<Rightarrow> nat \<Rightarrow> addr list \<Rightarrow> addr list" where
  "earliest k4 k6 xs =
     map (nth xs)
       (filter (\<lambda>i. (isIPv4 (xs ! i) \<and> length (filter isIPv4 (take i xs)) < k4) \<or>
                     (isIPv6 (xs ! i) \<and> length (filter isIPv6 (take i xs)) < k6))
          [0..<length xs])"

section \<open>Auxiliary notion for FirstEachAddrsFilter\<close>

text \<open>
  The index at which the loop of \<open>FirstEachAddrsFilter\<close> is left, as a function on the list
  of the indices still to visit: the first index at which both flags are set, or
  \<open>addrsLen\<close> when the loop runs to its end.
\<close>

fun stop_scan :: "(nat \<Rightarrow> bool) \<Rightarrow> (nat \<Rightarrow> bool) \<Rightarrow> bool \<Rightarrow> bool \<Rightarrow> int \<Rightarrow> nat list \<Rightarrow> int" where
  "stop_scan p4 p6 ipv4 ipv6 addrsLen [] = addrsLen"
| "stop_scan p4 p6 ipv4 ipv6 addrsLen (j # js) =
     (if (ipv4 \<or> p4 j) \<and> (ipv6 \<or> p6 j) then int j
      else stop_scan p4 p6 (ipv4 \<or> p4 j) (ipv6 \<or> p6 j) addrsLen js)"

section \<open>Basic facts\<close>

lemmas example_defs = scenario_def v4a_def v4b_def v4c_def v6a_def v6b_def u4_def sock_def
  isIPv4_def isIPv6_def IPv4len_def IPv6len_def

lemma acc_Nil [simp]: "acc c [] = None"
  by (simp add: acc_def)

lemma acc_snoc [simp]: "acc c (js @ [j]) = Some (pick c (js @ [j]))"
  by (simp add: acc_def)

lemma acc_Cons [simp]: "acc c (j # js) = Some (pick c (j # js))"
  by (simp add: acc_def)

lemma family_of_pick [simp]: "family_of (pick c js) = family_of c"
  by (cases c) simp_all

lemma same_family_acc [simp]: "same_family c (acc c js)"
  by (simp add: acc_def)

lemma length_elems_pick [simp]: "length (elems (pick c js)) = length js"
  by (cases c) simp_all

lemma elems_pick:
  "\<forall>j \<in> set js. j < length (elems c) \<Longrightarrow> elems (pick c js) = map (nth (elems c)) js"
  by (cases c) simp_all

lemma elems_of_acc:
  "\<forall>j \<in> set js. j < length (elems c) \<Longrightarrow> elems_of (acc c js) = map (nth (elems c)) js"
  by (simp add: acc_def elems_pick)

lemma length_elems_of_acc [simp]: "length (elems_of (acc c js)) = length js"
  by (simp add: acc_def)

lemma pick_all [simp]: "pick c [0..<length (elems c)] = c"
  by (cases c) (simp_all add: map_nth)

lemma addrs_impl_eqI: "family_of c = family_of d \<Longrightarrow> elems c = elems d \<Longrightarrow> c = d"
  by (cases c; cases d) (auto simp: inj_on_def dest: map_injective)

lemma Len_Some [simp]: "Len (Some c) = Inr (int (length (elems c)))"
  by (cases c) simp_all

lemma IP_Some [simp]:
  "0 \<le> i \<Longrightarrow> i < int (length (elems c)) \<Longrightarrow> IP (Some c) i = Inr (addr_IP (elems c ! nat i))"
  by (cases c) (simp_all add: index_def)

lemma Append_acc [simp]:
  "0 \<le> i \<Longrightarrow> i < int (length (elems c)) \<Longrightarrow>
   Append (Some c) (acc c js) i = Inr (acc c (js @ [nat i]))"
  by (cases c) (simp_all add: index_def acc_def)

lemma Append_None [simp]:
  "0 \<le> i \<Longrightarrow> i < int (length (elems c)) \<Longrightarrow> Append (Some c) None i = Inr (acc c [nat i])"
  using Append_acc [of i c "[]"] by simp

lemma map_nth_filter_upt:
  "map (nth xs) (filter (\<lambda>j. P (xs ! j)) [0..<length xs]) = filter P xs"
proof -
  have "filter P (map (nth xs) [0..<length xs]) =
        map (nth xs) (filter (P \<circ> nth xs) [0..<length xs])"
    by (rule filter_map)
  then show ?thesis by (simp add: map_nth o_def)
qed

lemma upt_step:
  "0 \<le> i \<Longrightarrow> i < int n \<Longrightarrow> [nat i..<n] = nat i # [nat (i + 1)..<n]"
  by (simp add: upt_conv_Cons nat_add_distrib)

section \<open>IPv4AddrsFilter and IPv6AddrsFilter select every address of a family\<close>

lemma AllIP_loop_eq:
  assumes "0 \<le> i" "i \<le> int (length (elems c))"
  shows "AllIP_loop w (Some c) (int (length (elems c))) (acc c js) i =
    Inr (acc c (js @ filter (\<lambda>j. int (length (addr_IP (elems c ! j))) = w)
                         [nat i..<length (elems c)]))"
  using assms
proof (induction "length (elems c) - nat i" arbitrary: i js)
  case 0
  then have "i = int (length (elems c))" by simp
  then show ?case by (subst AllIP_loop.simps) simp
next
  case (Suc k)
  then have lt: "i < int (length (elems c))" and k: "k = length (elems c) - nat (i + 1)"
    by linarith+
  show ?case
    using Suc.hyps(1) [OF k, of "js @ [nat i]"] Suc.hyps(1) [OF k, of js] lt Suc.prems
    by (subst AllIP_loop.simps) (simp add: upt_step)
qed

lemma AllIP_filter_eq:
  "AllIP_loop w (Some c) (int (length (elems c))) None 0 =
     Inr (acc c (filter (\<lambda>j. int (length (addr_IP (elems c ! j))) = w) [0..<length (elems c)]))"
  using AllIP_loop_eq [of 0 c w "[]"] by simp

lemma elems_of_acc_filter:
  "elems_of (acc c (filter (\<lambda>j. P (elems c ! j)) [0..<length (elems c)])) = filter P (elems c)"
  by (simp add: elems_of_acc map_nth_filter_upt)

lemma acc_None_iff: "acc c js = None \<longleftrightarrow> js = []"
  by (simp add: acc_def)

lemma acc_filter_None:
  "acc c (filter (\<lambda>j. P (elems c ! j)) [0..<length (elems c)]) = None \<longleftrightarrow> filter P (elems c) = []"
proof -
  have "filter (\<lambda>j. P (elems c ! j)) [0..<length (elems c)] = [] \<longleftrightarrow>
        map (nth (elems c)) (filter (\<lambda>j. P (elems c ! j)) [0..<length (elems c)]) = []"
    by (simp only: map_is_Nil_conv)
  then show ?thesis
    by (simp only: acc_None_iff map_nth_filter_upt)
qed

text \<open>
  Claim C7. For every non-absent collection, \<open>IPv4AddrsFilter\<close> returns exactly the
  elements whose IP has length 4, in their original relative order, and absent when there
  is none; \<open>IPv6AddrsFilter\<close> does the same for the IPs of length 16. Every element of
  a non-absent output therefore has a 4-byte, respectively a 16-byte, IP. The output is of
  the concrete type of the input.
\<close>

theorem IPv4_IPv6_filters_select_family:
  "\<exists>r4 r6. IPv4AddrsFilter (Some c) = Inr r4 \<and> IPv6AddrsFilter (Some c) = Inr r6
     \<and> elems_of r4 = filter isIPv4 (elems c) \<and> (r4 = None \<longleftrightarrow> filter isIPv4 (elems c) = [])
     \<and> same_family c r4
     \<and> elems_of r6 = filter isIPv6 (elems c) \<and> (r6 = None \<longleftrightarrow> filter isIPv6 (elems c) = [])
     \<and> same_family c r6
     \<and> (\<forall>x \<in> set (elems_of r4). length (addr_IP x) = 4)
     \<and> (\<forall>x \<in> set (elems_of r6). length (addr_IP x) = 16)"
proof -
  let ?r4 = "acc c (filter (\<lambda>j. isIPv4 (elems c ! j)) [0..<length (elems c)])"
  let ?r6 = "acc c (filter (\<lambda>j. isIPv6 (elems c ! j)) [0..<length (elems c)])"
  have 4: "IPv4AddrsFilter (Some c) = Inr ?r4"
    by (simp add: IPv4AddrsFilter_def AllIP_filter_eq isIPv4_def)
  have 6: "IPv6AddrsFilter (Some c) = Inr ?r6"
    by (simp add: IPv6AddrsFilter_def AllIP_filter_eq isIPv6_def)
  note e4 = elems_of_acc_filter [of c isIPv4] and e6 = elems_of_acc_filter [of c isIPv6]
  note n4 = acc_filter_None [of c isIPv4] and n6 = acc_filter_None [of c isIPv6]
  have p4: "\<forall>x \<in> set (elems_of ?r4). length (addr_IP x) = 4"
    unfolding e4 by (simp add: isIPv4_def IPv4len_def)
  have p6: "\<forall>x \<in> set (elems_of ?r6). length (addr_IP x) = 16"
    unfolding e6 by (simp add: isIPv6_def IPv6len_def)
  show ?thesis
    apply (rule exI [of _ ?r4])
    apply (rule exI [of _ ?r6])
    apply (simp only: 4 6 e4 e6 n4 n6 same_family_acc simp_thms)
    using p4 p6 unfolding e4 e6 apply simp
    done
qed

theorem IPv4_IPv6_filters_select_family_witness:
  "\<exists>r4 r6. IPv4AddrsFilter (Some scenario) = Inr r4 \<and> IPv6AddrsFilter (Some scenario) = Inr r6
     \<and> elems_of r4 = [TCP_addr v4a, TCP_addr v4b, TCP_addr v4c]
     \<and> elems_of r6 = [TCP_addr v6a, TCP_addr v6b]
     \<and> (\<forall>x \<in> set (elems_of r4). length (addr_IP x) = 4)
     \<and> (\<forall>x \<in> set (elems_of r6). length (addr_IP x) = 16)"
proof -
  have 4: "filter isIPv4 (elems scenario) = [TCP_addr v4a, TCP_addr v4b, TCP_addr v4c]"
    by (simp add: example_defs)
  have 6: "filter isIPv6 (elems scenario) = [TCP_addr v6a, TCP_addr v6b]"
    by (simp add: example_defs)
  show ?thesis
    using IPv4_IPv6_filters_select_family [of scenario] unfolding 4 6
    by (elim exE conjE) (intro exI conjI; assumption)
qed

section \<open>ReverseAddrsFilter\<close>

lemma Reverse_loop_eq:
  assumes "- 1 \<le> i" "i < int (length (elems c))"
  shows "Reverse_loop (Some c) (acc c js) i = Inr (acc c (js @ rev [0..<nat (i + 1)]))"
  using assms
proof (induction "nat (i + 1)" arbitrary: i js)
  case 0
  then have "i = - 1" by simp
  then show ?case by (subst Reverse_loop.simps) simp
next
  case (Suc k)
  then have ge: "0 \<le> i" and k: "k = nat (i - 1 + 1)"
    by linarith+
  have up: "[0..<nat (i + 1)] = [0..<nat i] @ [nat i]"
    using ge by (simp add: nat_add_distrib)
  show ?case
    using Suc.hyps(1) [OF k, of "js @ [nat i]"] ge Suc.prems
    by (subst Reverse_loop.simps) (simp add: up)
qed

lemma Reverse_Some:
  "ReverseAddrsFilter (Some c) =
     Inr (Some (if length (elems c) \<le> 1 then c else pick c (rev [0..<length (elems c)])))"
proof (cases "length (elems c) \<le> 1")
  case True
  then show ?thesis by (simp add: ReverseAddrsFilter_def)
next
  case False
  then have "Reverse_loop (Some c) None (int (length (elems c)) - 1) =
             Inr (acc c (rev [0..<length (elems c)]))"
    using Reverse_loop_eq [of "int (length (elems c)) - 1" c "[]"] by simp
  moreover have "rev [0..<length (elems c)] \<noteq> []"
    using False by auto
  ultimately show ?thesis
    using False by (simp add: ReverseAddrsFilter_def acc_def)
qed

lemma elems_pick_rev: "elems (pick c (rev [0..<length (elems c)])) = rev (elems c)"
  by (simp add: elems_pick rev_map [symmetric] map_nth)

lemma pick_rev_rev:
  "pick (pick c (rev [0..<length (elems c)])) (rev [0..<length (elems c)]) = c"
proof (rule addrs_impl_eqI)
  let ?r = "pick c (rev [0..<length (elems c)])"
  have "elems (pick ?r (rev [0..<length (elems ?r)])) = rev (elems ?r)"
    by (rule elems_pick_rev)
  then show "elems (pick ?r (rev [0..<length (elems c)])) = elems c"
    by (simp add: elems_pick_rev)
qed simp

lemma Reverse_twice: "\<exists>y. ReverseAddrsFilter x = Inr y \<and> ReverseAddrsFilter y = Inr x"
proof (cases x)
  case None
  then show ?thesis by (simp add: ReverseAddrsFilter_def)
next
  case (Some c)
  show ?thesis
  proof (cases "length (elems c) \<le> 1")
    case True
    then show ?thesis using Some by (simp add: Reverse_Some)
  next
    case False
    then show ?thesis using Some by (simp add: Reverse_Some pick_rev_rev)
  qed
qed

text \<open>
  Claim C8. A collection with at most one element is returned unchanged. For a collection
  with more than one element the result holds all elements in reverse index order: element
  \<open>i\<close> of the output is element \<open>Len - 1 - i\<close> of the input. Applying the filter twice
  gives back the input, for every input, the absent one included.
\<close>

theorem Reverse_reverses_and_is_involutive:
  "(length (elems c) \<le> 1 \<longrightarrow> ReverseAddrsFilter (Some c) = Inr (Some c)) \<and>
   (1 < length (elems c) \<longrightarrow>
      (\<exists>r. ReverseAddrsFilter (Some c) = Inr (Some r) \<and> family_of r = family_of c \<and>
           elems r = rev (elems c) \<and> length (elems r) = length (elems c) \<and>
           (\<forall>i < length (elems c). elems r ! i = elems c ! (length (elems c) - 1 - i)))) \<and>
   (\<exists>y. ReverseAddrsFilter x = Inr y \<and> ReverseAddrsFilter y = Inr x)"
proof (intro conjI impI)
  assume "length (elems c) \<le> 1"
  then show "ReverseAddrsFilter (Some c) = Inr (Some c)"
    by (simp add: Reverse_Some)
next
  assume len: "1 < length (elems c)"
  let ?r = "pick c (rev [0..<length (elems c)])"
  have "ReverseAddrsFilter (Some c) = Inr (Some ?r)"
    using len by (simp add: Reverse_Some)
  moreover have "family_of ?r = family_of c" by simp
  moreover have "elems ?r = rev (elems c)" by (rule elems_pick_rev)
  moreover have "length (elems ?r) = length (elems c)" by simp
  moreover have "\<forall>i < length (elems c). elems ?r ! i = elems c ! (length (elems c) - 1 - i)"
    by (simp add: elems_pick_rev rev_nth)
  ultimately show "\<exists>r. ReverseAddrsFilter (Some c) = Inr (Some r) \<and> family_of r = family_of c \<and>
           elems r = rev (elems c) \<and> length (elems r) = length (elems c) \<and>
           (\<forall>i < length (elems c). elems r ! i = elems c ! (length (elems c) - 1 - i))"
    by (intro exI [of _ ?r] conjI)
next
  show "\<exists>y. ReverseAddrsFilter x = Inr y \<and> ReverseAddrsFilter y = Inr x"
    by (rule Reverse_twice)
qed

theorem Reverse_reverses_and_is_involutive_witness:
  "1 < length (elems scenario) \<and>
   (\<exists>r. ReverseAddrsFilter (Some scenario) = Inr (Some r) \<and> family_of r = TCP \<and>
        elems r = [TCP_addr v6b, TCP_addr v6a, TCP_addr v4c, TCP_addr v4b, TCP_addr v4a]) \<and>
   (\<exists>y. ReverseAddrsFilter (Some scenario) = Inr y \<and> ReverseAddrsFilter y = Inr (Some scenario))"
proof -
  have len: "1 < length (elems scenario)"
    by (simp add: scenario_def)
  have fam: "family_of scenario = TCP"
    by (simp add: scenario_def)
  have rv: "rev (elems scenario) =
            [TCP_addr v6b, TCP_addr v6a, TCP_addr v4c, TCP_addr v4b, TCP_addr v4a]"
    by (simp add: scenario_def)
  from Reverse_reverses_and_is_involutive [of scenario "Some scenario"] len
  have "(\<exists>r. ReverseAddrsFilter (Some scenario) = Inr (Some r) \<and>
             family_of r = family_of scenario \<and> elems r = rev (elems scenario) \<and>
             length (elems r) = length (elems scenario) \<and>
             (\<forall>i < length (elems scenario).
                 elems r ! i = elems scenario ! (length (elems scenario) - 1 - i)))"
    and inv: "\<exists>y. ReverseAddrsFilter (Some scenario) = Inr y \<and>
                 ReverseAddrsFilter y = Inr (Some scenario)"
    by simp_all
  then obtain r where "ReverseAddrsFilter (Some scenario) = Inr (Some r)"
    "family_of r = TCP" "elems r = rev (elems scenario)"
    unfolding fam by (elim exE conjE)
  then have "\<exists>r. ReverseAddrsFilter (Some scenario) = Inr (Some r) \<and> family_of r = TCP \<and>
        elems r = [TCP_addr v6b, TCP_addr v6a, TCP_addr v4c, TCP_addr v4b, TCP_addr v4a]"
    unfolding rv by (intro exI [of _ r] conjI)
  with len inv show ?thesis by (intro conjI)
qed

section \<open>Append with a target of another concrete type\<close>

text \<open>
  Claim C3 says that \<open>Append\<close>, given a non-nil target of another concrete type, drops
  the element at index \<open>i\<close> of the receiver. It does not: the failed type assertion
  replaces the target by the nil slice, and the element is appended to that. Appending the
  TCP address \<open>v4a\<close> to a UDP collection returns the TCP collection that holds \<open>v4a\<close>.
\<close>

theorem Append_mismatch_counterexample:
  "Append (Some (tcpAddrs [v4a])) (Some (udpAddrs [u4])) 0 = Inr (Some (tcpAddrs [v4a]))"
  by (simp add: index_def)

text \<open>
  Claim C3, amended. For every index in range and every non-nil target of another concrete
  type, \<open>Append\<close> does not fail; it discards the elements of the target and returns the
  collection of the receiver's type that holds exactly the element at index \<open>i\<close> of the
  receiver, which is what it returns for a nil target.
\<close>

theorem Append_mismatch_discards_target:
  assumes "0 \<le> i" "i < int (length (elems self))" "family_of target \<noteq> family_of self"
  shows "\<exists>r. Append (Some self) (Some target) i = Inr (Some r) \<and>
             Append (Some self) None i = Inr (Some r) \<and>
             family_of r = family_of self \<and> elems r = [elems self ! nat i]"
proof -
  have "Append (Some self) (Some target) i = Inr (Some (pick self [nat i]))"
    using assms by (cases self; cases target) (simp_all add: index_def)
  moreover have "Append (Some self) None i = Inr (Some (pick self [nat i]))"
    using assms by simp
  moreover have "elems (pick self [nat i]) = [elems self ! nat i]"
    using assms by (simp add: elems_pick)
  ultimately show ?thesis
    by (intro exI [of _ "pick self [nat i]"] conjI) simp_all
qed

theorem Append_mismatch_discards_target_witness:
  "(0::int) \<le> 0 \<and> 0 < int (length (elems (tcpAddrs [v4a])))
   \<and> family_of (udpAddrs [u4]) \<noteq> family_of (tcpAddrs [v4a])
   \<and> (\<exists>r. Append (Some (tcpAddrs [v4a])) (Some (udpAddrs [u4])) 0 = Inr (Some r) \<and>
          Append (Some (tcpAddrs [v4a])) None 0 = Inr (Some r) \<and>
          family_of r = TCP \<and> elems r = [TCP_addr v4a])"
  using Append_mismatch_discards_target [of 0 "tcpAddrs [v4a]" "udpAddrs [u4]"]
  by simp

section \<open>ComposeAddrsFilters\<close>

lemma and_then_Inl [simp]: "and_then (Inl e) g = Inl e"
  by (simp add: and_then_def)

lemma and_then_Inr [simp]: "and_then (Inr v) g = g v"
  by (simp add: and_then_def)

lemma foldl_and_then_Inl: "foldl and_then (Inl e) filters = Inl e"
  by (induction filters) simp_all

lemma Compose_foldl:
  "ComposeAddrsFilters filters x = foldl and_then (Inr x) filters"
proof (induction filters arbitrary: x)
  case Nil
  show ?case by simp
next
  case (Cons f filters)
  show ?case
  proof (cases "f x")
    case (Inl e)
    then show ?thesis by (simp add: foldl_and_then_Inl)
  next
    case (Inr a)
    then show ?thesis by (simp add: Cons.IH)
  qed
qed

lemma Compose_pair: "ComposeAddrsFilters [f, g] x = and_then (f x) g"
proof (cases "f x")
  case (Inl e)
  then show ?thesis by simp
next
  case (Inr y)
  then show ?thesis by (cases "g y") simp_all
qed

text \<open>
  Claim C9. \<open>ComposeAddrsFilters [f, g]\<close> applied to \<open>x\<close> is \<open>g\<close> applied to the result of
  \<open>f x\<close> (a panic of \<open>f\<close> being the panic of the whole call), and the filter built from
  any list of filters threads the collection through them from left to right, each stage
  receiving the output of the one before.
\<close>

theorem Compose_threads_in_order:
  "ComposeAddrsFilters [f, g] x = and_then (f x) g \<and>
   (\<forall>y. f x = Inr y \<longrightarrow> ComposeAddrsFilters [f, g] x = g y) \<and>
   ComposeAddrsFilters filters x = foldl and_then (Inr x) filters"
proof (intro conjI allI impI)
  show "ComposeAddrsFilters [f, g] x = and_then (f x) g"
    by (rule Compose_pair)
  show "ComposeAddrsFilters [f, g] x = g y" if "f x = Inr y" for y
    using that by (simp only: Compose_pair and_then_Inr)
  show "ComposeAddrsFilters filters x = foldl and_then (Inr x) filters"
    by (rule Compose_foldl)
qed

lemma IPv4AddrsFilter_eq:
  "IPv4AddrsFilter (Some c) =
     Inr (acc c (filter (\<lambda>j. isIPv4 (elems c ! j)) [0..<length (elems c)]))"
  by (simp add: IPv4AddrsFilter_def AllIP_filter_eq isIPv4_def)

theorem Compose_threads_in_order_witness:
  "IPv4AddrsFilter (Some scenario) = Inr (Some (tcpAddrs [v4a, v4b, v4c])) \<and>
   ComposeAddrsFilters [IPv4AddrsFilter, FirstAddrsFilter] (Some scenario) =
     Inr (Some (tcpAddrs [v4a]))"
proof -
  have e: "IPv4AddrsFilter (Some scenario) = Inr (Some (tcpAddrs [v4a, v4b, v4c]))"
    by (simp add: IPv4AddrsFilter_eq example_defs)
  have "ComposeAddrsFilters [IPv4AddrsFilter, FirstAddrsFilter] (Some scenario) =
        FirstAddrsFilter (Some (tcpAddrs [v4a, v4b, v4c]))"
    using Compose_threads_in_order [of IPv4AddrsFilter FirstAddrsFilter "Some scenario" "[]"] e
    by simp
  then show ?thesis
    using e by (simp add: FirstAddrsFilter_def index_def)
qed

section \<open>Absent input\<close>

lemma Compose_None:
  "\<forall>f \<in> set filters. f None = Inr None \<Longrightarrow> ComposeAddrsFilters filters None = Inr None"
  by (induction filters) simp_all

lemma library_filter_None: "library_filter f \<Longrightarrow> f None = Inr None"
proof (induction rule: library_filter.induct)
  case (Compose filters)
  then show ?case by (simp add: Compose_None)
qed (simp_all add: DefaultAddrsFilter_def NoAddrsFilter_def FirstAddrsFilter_def
    FirstEachAddrsFilter_def FirstIPv4AddrsFilter_def FirstIPv6AddrsFilter_def
    IPv4AddrsFilter_def IPv6AddrsFilter_def MaxAddrsFilter_def ReverseAddrsFilter_def
    ShuffleAddrsFilter_def)

text \<open>
  Claim C4. Every filter of the library, every \<open>MaxAddrsFilter max\<close>, \<open>ShuffleAddrsFilter\<close>
  and every composition of library filters included, maps the absent collection to the
  absent collection. No accessor is called on the way: \<open>Len\<close>, \<open>IP\<close> and \<open>Append\<close> on
  the nil interface panic, and the filter does not.
\<close>

theorem filters_map_absent_to_absent:
  "library_filter f \<Longrightarrow>
     f None = Inr None \<and> Len None = Inl NilDereference \<and> IP None i = Inl NilDereference \<and>
     Append None a i = Inl NilDereference"
  by (simp add: library_filter_None)

lemma is_Perm_descending: "is_Perm descending"
  by (auto simp: is_Perm_def descending_def)

theorem filters_map_absent_to_absent_witness:
  "library_filter (ComposeAddrsFilters [ShuffleAddrsFilter descending, MaxAddrsFilter 3]) \<and>
   ComposeAddrsFilters [ShuffleAddrsFilter descending, MaxAddrsFilter 3] None = Inr None"
proof -
  have "library_filter (ComposeAddrsFilters [ShuffleAddrsFilter descending, MaxAddrsFilter 3])"
    by (rule library_filter.Compose)
      (simp add: library_filter.Shuffle library_filter.Max is_Perm_descending)
  then show ?thesis
    using filters_map_absent_to_absent
      [of "ComposeAddrsFilters [ShuffleAddrsFilter descending, MaxAddrsFilter 3]"]
    by (intro conjI) simp_all
qed

section \<open>MaxAddrsFilter\<close>

lemma Max_count_eq:
  assumes "0 \<le> i" "i \<le> int (length (elems c))"
  shows "Max_count (Some c) (int (length (elems c))) n4 n6 i =
    Inr (n4 + int (length (filter (\<lambda>j. isIPv4 (elems c ! j)) [nat i..<length (elems c)])),
         n6 + int (length (filter (\<lambda>j. isIPv6 (elems c ! j)) [nat i..<length (elems c)])))"
  using assms
proof (induction "length (elems c) - nat i" arbitrary: i n4 n6)
  case 0
  then have "i = int (length (elems c))" by simp
  then show ?case by (subst Max_count.simps) simp
next
  case (Suc k)
  then have lt: "i < int (length (elems c))" and k: "k = length (elems c) - nat (i + 1)"
    by linarith+
  show ?case
    using Suc.hyps(1) [OF k] lt Suc.prems
    by (subst Max_count.simps)
       (simp add: upt_step isIPv4_def isIPv6_def IPv4len_def IPv6len_def Let_def)
qed

lemma Max_select_eq:
  assumes "0 \<le> i" "i \<le> int (length (elems c))"
  shows "Max_select (Some c) (int (length (elems c))) ipv4 ipv6 (acc c js) i =
    Inr (acc c (js @ select_scan (\<lambda>j. isIPv4 (elems c ! j)) (\<lambda>j. isIPv6 (elems c ! j))
                        ipv4 ipv6 [nat i..<length (elems c)]))"
  using assms
proof (induction "length (elems c) - nat i" arbitrary: i ipv4 ipv6 js)
  case 0
  then have "i = int (length (elems c))" by simp
  then show ?case by (subst Max_select.simps) simp
next
  case (Suc k)
  then have lt: "i < int (length (elems c))" and k: "k = length (elems c) - nat (i + 1)"
    by linarith+
  note IH = Suc.hyps(1) [OF k]
  show ?case
    using IH [of "ipv4 - 1" ipv6 "js @ [nat i]"] IH [of ipv4 "ipv6 - 1" "js @ [nat i]"]
      IH [of ipv4 ipv6 js] lt Suc.prems
    by (subst Max_select.simps)
       (simp add: upt_step isIPv4_def isIPv6_def IPv4len_def IPv6len_def Let_def)
qed

lemma length_filter_nth_upt:
  "length (filter (\<lambda>j. P (xs ! j)) [0..<length xs]) = length (filter P xs)"
  using arg_cong [OF map_nth_filter_upt [of xs P], of length] by simp

lemma MaxAddrsFilter_eq:
  "MaxAddrsFilter max' (Some c) =
     Inr (if int (length (elems c)) \<le> max' then Some c
          else acc c (select_scan (\<lambda>j. isIPv4 (elems c ! j)) (\<lambda>j. isIPv6 (elems c ! j))
                        (fst (Max_quota_of max' (elems c))) (snd (Max_quota_of max' (elems c)))
                        [0..<length (elems c)]))"
  using Max_count_eq [of 0 c 0 0] Max_select_eq [of 0 c _ _ "[]"]
  by (simp add: MaxAddrsFilter_def length_filter_nth_upt Max_quota_of_def split: prod.split)

lemma select_scan_nonpos:
  "ipv4 \<le> 0 \<Longrightarrow> ipv6 \<le> 0 \<Longrightarrow> select_scan p4 p6 ipv4 ipv6 js = []"
  by (induction js) simp_all

lemma sdiv_2_nonpos: "(m::int) \<le> 0 \<Longrightarrow> m \<le> m sdiv 2 \<and> m sdiv 2 \<le> 0"
  by (simp add: signed_divide_int_def sgn_if) linarith

lemma Max_quota_nonpos:
  assumes "max' \<le> 0" "0 \<le> n4" "0 \<le> n6"
  shows "fst (Max_quota max' n4 n6) \<le> 0 \<and> snd (Max_quota max' n4 n6) \<le> 0"
  using assms sdiv_2_nonpos [of max'] by (auto simp: Max_quota_def Let_def)

lemma sdiv_2_nonneg: "0 \<le> (m::int) \<Longrightarrow> 0 \<le> m sdiv 2 \<and> m sdiv 2 \<le> m"
  by (simp add: signed_divide_int_def sgn_if) linarith

lemma Max_quota_range:
  assumes "0 \<le> n4" "0 \<le> n6"
  shows "- \<bar>max'\<bar> \<le> fst (Max_quota max' n4 n6) \<and> fst (Max_quota max' n4 n6) \<le> max \<bar>max'\<bar> n4 \<and>
         - \<bar>max'\<bar> \<le> snd (Max_quota max' n4 n6) \<and> snd (Max_quota max' n4 n6) \<le> max \<bar>max'\<bar> n6"
proof (cases "0 \<le> max'")
  case True
  then show ?thesis
    using assms sdiv_2_nonneg [of max'] by (auto simp: Max_quota_def Let_def)
next
  case False
  then show ?thesis
    using assms sdiv_2_nonpos [of max'] by (auto simp: Max_quota_def Let_def)
qed

text \<open>
  Claim C10. For \<open>max \<le> 0\<close> and a collection with at least one element,
  \<open>MaxAddrsFilter max\<close> returns the absent collection: both quotas computed from
  \<open>max / 2\<close> are at most zero, whatever the two counts are, so the scan selects nothing.
\<close>

theorem Max_nonpositive_returns_absent:
  assumes "max' \<le> 0" "1 \<le> length (elems c)"
  shows "MaxAddrsFilter max' (Some c) = Inr None \<and>
         (\<forall>n4 n6. 0 \<le> n4 \<longrightarrow> 0 \<le> n6 \<longrightarrow>
            fst (Max_quota max' n4 n6) \<le> 0 \<and> snd (Max_quota max' n4 n6) \<le> 0)"
proof -
  have "fst (Max_quota_of max' (elems c)) \<le> 0 \<and> snd (Max_quota_of max' (elems c)) \<le> 0"
    unfolding Max_quota_of_def using assms(1) by (intro Max_quota_nonpos) simp_all
  then have "MaxAddrsFilter max' (Some c) = Inr None"
    using assms by (simp add: MaxAddrsFilter_eq select_scan_nonpos)
  then show ?thesis
    using assms(1) by (simp add: Max_quota_nonpos)
qed

theorem Max_nonpositive_returns_absent_witness:
  "(- 1 :: int) \<le> 0 \<and> 1 \<le> length (elems scenario) \<and>
   MaxAddrsFilter (- 1) (Some scenario) = Inr None \<and>
   Max_quota (- 1) 3 2 = (- 1, 0)"
proof -
  have "Max_quota (- 1) 3 2 = (- 1, 0)"
    by (simp add: Max_quota_def signed_divide_int_def)
  then show ?thesis
    using Max_nonpositive_returns_absent [of "- 1" scenario]
    by (simp add: scenario_def)
qed

section \<open>The earliest addresses of each family\<close>

lemma not_both_families: "\<not> (isIPv4 x \<and> isIPv6 x)"
  by (simp add: isIPv4_def isIPv6_def IPv4len_def IPv6len_def)

lemma filter_upt_step:
  "k < i \<Longrightarrow> filter p [k..<i] = (if p k then [k] else []) @ filter p [Suc k..<i]"
  by (simp add: upt_conv_Cons)

lemma select_scan_positions:
  assumes excl: "\<And>j. \<not> (p4 j \<and> p6 j)"
  shows "select_scan p4 p6 q4 q6 [k..<n] =
    filter (\<lambda>i. (p4 i \<and> int (length (filter p4 [k..<i])) < q4) \<or>
                  (p6 i \<and> int (length (filter p6 [k..<i])) < q6)) [k..<n]"
proof (induction "n - k" arbitrary: k q4 q6)
  case 0
  then show ?case by simp
next
  case (Suc m)
  let ?Q = "\<lambda>k q4 q6 i. (p4 i \<and> int (length (filter p4 [k..<i])) < q4) \<or>
                          (p6 i \<and> int (length (filter p6 [k..<i])) < q6)"
  from Suc have lt: "k < n" and m: "m = n - Suc k" by linarith+
  have up: "[k..<n] = k # [Suc k..<n]"
    using lt by (simp add: upt_conv_Cons)
  note IH = Suc.hyps(1) [OF m]
  have tail: "filter (?Q k q4 q6) [Suc k..<n] =
        filter (?Q (Suc k) (q4 - (if p4 k then 1 else 0)) (q6 - (if p6 k then 1 else 0)))
          [Suc k..<n]"
    by (rule filter_cong [OF refl]) (auto simp: filter_upt_step)
  have drop4: "filter (?Q (Suc k) (q4 - 1) q6') [Suc k..<n] = filter (?Q (Suc k) q4 q6') [Suc k..<n]"
    if "\<not> 0 < q4" for q6'
    using that by (intro filter_cong [OF refl]) auto
  have drop6: "filter (?Q (Suc k) q4' (q6 - 1)) [Suc k..<n] = filter (?Q (Suc k) q4' q6) [Suc k..<n]"
    if "\<not> 0 < q6" for q4'
    using that by (intro filter_cong [OF refl]) auto
  have head: "filter (?Q k q4 q6) [k..<n] =
      (if (p4 k \<and> 0 < q4) \<or> (p6 k \<and> 0 < q6) then [k] else []) @
      filter (?Q (Suc k) (q4 - (if p4 k then 1 else 0)) (q6 - (if p6 k then 1 else 0))) [Suc k..<n]"
    unfolding up tail [symmetric] by simp
  have sel: "select_scan p4 p6 q4 q6 [k..<n] =
      (if 0 < q4 \<and> p4 k then k # filter (?Q (Suc k) (q4 - 1) q6) [Suc k..<n]
       else if 0 < q6 \<and> p6 k then k # filter (?Q (Suc k) q4 (q6 - 1)) [Suc k..<n]
       else filter (?Q (Suc k) q4 q6) [Suc k..<n])"
    unfolding up by (simp only: select_scan.simps IH)
  show ?case
  proof (cases "p4 k")
    case True
    then have n6: "\<not> p6 k" using excl by blast
    show ?thesis
    proof (cases "0 < q4")
      case True
      with \<open>p4 k\<close> n6 show ?thesis unfolding head sel by simp
    next
      case False
      with \<open>p4 k\<close> n6 show ?thesis unfolding head sel by (simp add: drop4)
    qed
  next
    case False
    show ?thesis
    proof (cases "p6 k")
      case True
      show ?thesis
      proof (cases "0 < q6")
        case True
        with \<open>p6 k\<close> \<open>\<not> p4 k\<close> show ?thesis unfolding head sel by simp
      next
        case False
        with \<open>p6 k\<close> \<open>\<not> p4 k\<close> show ?thesis unfolding head sel by (simp add: drop6)
      qed
    next
      case False
      with \<open>\<not> p4 k\<close> show ?thesis unfolding head sel by simp
    qed
  qed
qed

lemma length_filter_nth_take:
  assumes "i \<le> length xs"
  shows "length (filter (\<lambda>j. P (xs ! j)) [0..<i]) = length (filter P (take i xs))"
proof -
  have "filter (\<lambda>j. P (xs ! j)) [0..<i] = filter (\<lambda>j. P (take i xs ! j)) [0..<i]"
    by (rule filter_cong [OF refl]) simp
  moreover have "length (take i xs) = i"
    using assms by simp
  ultimately show ?thesis
    using length_filter_nth_upt [of P "take i xs"] by simp
qed

lemma select_scan_earliest:
  "map (nth xs) (select_scan (\<lambda>j. isIPv4 (xs ! j)) (\<lambda>j. isIPv6 (xs ! j)) q4 q6 [0..<length xs]) =
   earliest (nat q4) (nat q6) xs"
proof -
  have "select_scan (\<lambda>j. isIPv4 (xs ! j)) (\<lambda>j. isIPv6 (xs ! j)) q4 q6 [0..<length xs] =
    filter (\<lambda>i. (isIPv4 (xs ! i) \<and> length (filter isIPv4 (take i xs)) < nat q4) \<or>
                  (isIPv6 (xs ! i) \<and> length (filter isIPv6 (take i xs)) < nat q6))
          [0..<length xs]"
    unfolding select_scan_positions [of "\<lambda>j. isIPv4 (xs ! j)" "\<lambda>j. isIPv6 (xs ! j)", OF not_both_families]
    by (rule filter_cong [OF refl]) (auto simp: length_filter_nth_take)
  then show ?thesis by (simp add: earliest_def)
qed

lemma earliest_snoc:
  "earliest k4 k6 (xs @ [x]) =
   earliest k4 k6 xs @
     (if (isIPv4 x \<and> length (filter isIPv4 xs) < k4) \<or> (isIPv6 x \<and> length (filter isIPv6 xs) < k6)
      then [x] else [])"
proof -
  let ?ch = "\<lambda>ys i. (isIPv4 (ys ! i) \<and> length (filter isIPv4 (take i ys)) < k4) \<or>
                     (isIPv6 (ys ! i) \<and> length (filter isIPv6 (take i ys)) < k6)"
  have f: "filter (?ch (xs @ [x])) [0..<length xs] = filter (?ch xs) [0..<length xs]"
    by (rule filter_cong [OF refl]) (simp add: nth_append)
  have m: "map (nth (xs @ [x])) (filter (?ch xs) [0..<length xs]) =
           map (nth xs) (filter (?ch xs) [0..<length xs])"
    by (rule map_cong [OF refl]) (simp add: nth_append)
  have "earliest k4 k6 (xs @ [x]) =
        map (nth (xs @ [x])) (filter (?ch (xs @ [x])) ([0..<length xs] @ [length xs]))"
    unfolding earliest_def by simp
  also have "\<dots> = map (nth (xs @ [x])) (filter (?ch (xs @ [x])) [0..<length xs]) @
                   map (nth (xs @ [x])) (filter (?ch (xs @ [x])) [length xs])"
    by (simp only: filter_append map_append)
  also have "map (nth (xs @ [x])) (filter (?ch (xs @ [x])) [0..<length xs]) = earliest k4 k6 xs"
    unfolding f m earliest_def ..
  also have "map (nth (xs @ [x])) (filter (?ch (xs @ [x])) [length xs]) =
     (if (isIPv4 x \<and> length (filter isIPv4 xs) < k4) \<or> (isIPv6 x \<and> length (filter isIPv6 xs) < k6)
      then [x] else [])"
    by simp
  finally show ?thesis .
qed

lemma filter_earliest:
  "filter isIPv4 (earliest k4 k6 xs) = take k4 (filter isIPv4 xs) \<and>
   filter isIPv6 (earliest k4 k6 xs) = take k6 (filter isIPv6 xs)"
proof (induction xs rule: rev_induct)
  case Nil
  show ?case by (simp add: earliest_def)
next
  case (snoc x xs)
  then show ?case
    using not_both_families [of x] by (auto simp: earliest_snoc)
qed

lemma set_earliest: "x \<in> set (earliest k4 k6 xs) \<Longrightarrow> x \<in> set xs \<and> (isIPv4 x \<or> isIPv6 x)"
  by (induction xs rule: rev_induct) (auto simp: earliest_def [of _ _ "[]"] earliest_snoc split: if_splits)

lemma length_by_family:
  assumes "\<forall>x \<in> set ys. isIPv4 x \<or> isIPv6 x"
  shows "length ys = length (filter isIPv4 ys) + length (filter isIPv6 ys)"
proof -
  have "filter isIPv6 ys = filter (\<lambda>x. \<not> isIPv4 x) ys"
    using assms not_both_families by (intro filter_cong) auto
  then show ?thesis
    using sum_length_filter_compl [of isIPv4 ys] by simp
qed

lemma length_earliest:
  "length (earliest k4 k6 xs) =
     min k4 (length (filter isIPv4 xs)) + min k6 (length (filter isIPv6 xs))"
proof -
  have "\<forall>x \<in> set (earliest k4 k6 xs). isIPv4 x \<or> isIPv6 x"
    using set_earliest by blast
  from length_by_family [OF this] show ?thesis
    by (simp add: filter_earliest min.commute)
qed


section \<open>MaxAddrsFilter splits its quota between the families\<close>

lemma set_select_scan: "j \<in> set (select_scan p4 p6 q4 q6 js) \<Longrightarrow> j \<in> set js"
  by (induction js arbitrary: q4 q6) (auto split: if_splits)

lemma length_select_scan: "length (select_scan p4 p6 q4 q6 js) \<le> length js"
  by (induction js arbitrary: q4 q6) (auto simp: le_SucI)

lemma elems_of_acc_select_scan:
  "elems_of (acc c (select_scan (\<lambda>j. isIPv4 (elems c ! j)) (\<lambda>j. isIPv6 (elems c ! j)) q4 q6
                      [0..<length (elems c)])) =
   earliest (nat q4) (nat q6) (elems c)"
proof -
  have "\<forall>j \<in> set (select_scan (\<lambda>j. isIPv4 (elems c ! j)) (\<lambda>j. isIPv6 (elems c ! j)) q4 q6
                      [0..<length (elems c)]). j < length (elems c)"
  proof
    fix j
    assume "j \<in> set (select_scan (\<lambda>j. isIPv4 (elems c ! j)) (\<lambda>j. isIPv6 (elems c ! j)) q4 q6
                      [0..<length (elems c)])"
    then have "j \<in> set [0..<length (elems c)]"
      by (rule set_select_scan)
    then show "j < length (elems c)" by simp
  qed
  then show ?thesis
    by (simp only: elems_of_acc select_scan_earliest)
qed

lemma Max_quota_nonneg:
  assumes "0 \<le> max'" "max' < n4 + n6" "0 \<le> n4" "0 \<le> n6"
  shows "Max_quota max' n4 n6 =
           (if n6 \<le> max' div 2 then (max' - n6, n6)
            else if n4 \<le> max' div 2 then (n4, max' - n4)
            else (max' - max' div 2, max' div 2))"
    and "0 \<le> fst (Max_quota max' n4 n6)" and "fst (Max_quota max' n4 n6) \<le> n4"
    and "0 \<le> snd (Max_quota max' n4 n6)" and "snd (Max_quota max' n4 n6) \<le> n6"
    and "fst (Max_quota max' n4 n6) + snd (Max_quota max' n4 n6) = max'"
proof -
  have sd: "max' sdiv 2 = max' div 2"
    using assms(1) by (simp add: signed_divide_int_def sgn_if)
  show "Max_quota max' n4 n6 =
           (if n6 \<le> max' div 2 then (max' - n6, n6)
            else if n4 \<le> max' div 2 then (n4, max' - n4)
            else (max' - max' div 2, max' div 2))"
    by (simp add: Max_quota_def sd Let_def)
  show "0 \<le> fst (Max_quota max' n4 n6)" "fst (Max_quota max' n4 n6) \<le> n4"
    "0 \<le> snd (Max_quota max' n4 n6)" "snd (Max_quota max' n4 n6) \<le> n6"
    "fst (Max_quota max' n4 n6) + snd (Max_quota max' n4 n6) = max'"
    using assms by (auto simp: Max_quota_def sd Let_def)
qed

text \<open>
  Claim C1 is stated for every \<open>max < n4 + n6\<close>, negative values included. For a negative
  \<open>max\<close> the output cannot have length \<open>min(max, n4 + n6) = max\<close>: for \<open>max = -1\<close> and a
  collection holding one IPv4 address the filter returns the absent collection, of length 0.
\<close>

theorem Max_count_exceeds_counterexample:
  "MaxAddrsFilter (- 1) (Some (tcpAddrs [v4a])) = Inr None \<and>
   length (filter isIPv4 (elems (tcpAddrs [v4a]))) = 1 \<and>
   length (filter isIPv6 (elems (tcpAddrs [v4a]))) = 0 \<and>
   int (length (elems_of None)) \<noteq> min (- 1) (1 + 0)"
proof -
  have "Max_quota_of (- 1) (elems (tcpAddrs [v4a])) = (- 1, 0)"
    by (simp add: Max_quota_of_def Max_quota_def signed_divide_int_def example_defs)
  then show ?thesis
    by (simp add: MaxAddrsFilter_eq example_defs)
qed

text \<open>
  Claim C1, amended by \<open>0 \<le> max\<close>. For a collection of \<open>n4\<close> IPv4 and \<open>n6\<close> IPv6 addresses
  and nothing else, and \<open>0 \<le> max < n4 + n6\<close>, the output has length
  \<open>min(max, n4 + n6)\<close>; with \<open>half = max / 2\<close> it holds \<open>k4\<close> IPv4 and \<open>k6\<close> IPv6 addresses,
  where \<open>(k4, k6)\<close> is \<open>(max - n6, n6)\<close> if \<open>n6 \<le> half\<close>, else \<open>(n4, max - n4)\<close> if
  \<open>n4 \<le> half\<close>, else \<open>(max - half, half)\<close>; the IPv4 addresses of the output are the first
  \<open>k4\<close> IPv4 addresses of the input, the IPv6 addresses the first \<open>k6\<close> IPv6 addresses, and
  the output lists them in the order in which they stand in the input. The output is
  absent exactly when \<open>max = 0\<close>.
\<close>

theorem Max_fair_split:
  assumes fam: "\<forall>x \<in> set (elems c). isIPv4 x \<or> isIPv6 x"
    and n4: "n4 = int (length (filter isIPv4 (elems c)))"
    and n6: "n6 = int (length (filter isIPv6 (elems c)))"
    and max: "0 \<le> max'" "max' < n4 + n6"
    and half: "half = max' div 2"
    and k4: "k4 = (if n6 \<le> half then max' - n6 else if n4 \<le> half then n4 else max' - half)"
    and k6: "k6 = (if n6 \<le> half then n6 else if n4 \<le> half then max' - n4 else half)"
  shows "\<exists>r. MaxAddrsFilter max' (Some c) = Inr r \<and> same_family c r \<and>
           int (length (elems_of r)) = min max' (n4 + n6) \<and>
           int (length (filter isIPv4 (elems_of r))) = k4 \<and>
           int (length (filter isIPv6 (elems_of r))) = k6 \<and>
           filter isIPv4 (elems_of r) = take (nat k4) (filter isIPv4 (elems c)) \<and>
           filter isIPv6 (elems_of r) = take (nat k6) (filter isIPv6 (elems c)) \<and>
           elems_of r = earliest (nat k4) (nat k6) (elems c) \<and>
           (r = None \<longleftrightarrow> max' = 0)"
proof -
  let ?xs = "elems c"
  let ?r = "acc c (select_scan (\<lambda>j. isIPv4 (?xs ! j)) (\<lambda>j. isIPv6 (?xs ! j)) k4 k6
                     [0..<length ?xs])"
  have len: "int (length ?xs) = n4 + n6"
    using length_by_family [OF fam] n4 n6 by simp
  have n0: "0 \<le> n4" "0 \<le> n6"
    using n4 n6 by simp_all
  note q = Max_quota_nonneg [OF max n0]
  have quota: "Max_quota_of max' ?xs = (k4, k6)"
    unfolding Max_quota_of_def n4 [symmetric] n6 [symmetric] q(1) k4 k6 half by simp
  have k: "0 \<le> k4" "k4 \<le> n4" "0 \<le> k6" "k6 \<le> n6" "k4 + k6 = max'"
    using q(2-6) quota unfolding Max_quota_of_def n4 [symmetric] n6 [symmetric] by simp_all
  have run: "MaxAddrsFilter max' (Some c) = Inr ?r"
    using max(2) len by (simp add: MaxAddrsFilter_eq quota)
  have el: "elems_of ?r = earliest (nat k4) (nat k6) ?xs"
    by (rule elems_of_acc_select_scan)
  have f4: "filter isIPv4 (elems_of ?r) = take (nat k4) (filter isIPv4 ?xs)"
   and f6: "filter isIPv6 (elems_of ?r) = take (nat k6) (filter isIPv6 ?xs)"
    unfolding el by (simp_all add: filter_earliest)
  have l4: "int (length (filter isIPv4 (elems_of ?r))) = k4"
    unfolding f4 using k n4 by simp
  have l6: "int (length (filter isIPv6 (elems_of ?r))) = k6"
    unfolding f6 using k n6 by simp
  have ll: "int (length (elems_of ?r)) = min max' (n4 + n6)"
    unfolding el length_earliest using k n4 n6 max by simp
  have nn: "?r = None \<longleftrightarrow> max' = 0"
  proof -
    have "int (length (elems_of ?r)) = max'"
      using ll max by simp
    then have "int (length (select_scan (\<lambda>j. isIPv4 (?xs ! j)) (\<lambda>j. isIPv6 (?xs ! j)) k4 k6
                     [0..<length ?xs])) = max'"
      by simp
    then have "select_scan (\<lambda>j. isIPv4 (?xs ! j)) (\<lambda>j. isIPv6 (?xs ! j)) k4 k6
                     [0..<length ?xs] = [] \<longleftrightarrow> max' = 0"
      by auto
    then show ?thesis
      by (simp only: acc_None_iff)
  qed
  show ?thesis
    by (intro exI [of _ ?r] conjI run same_family_acc ll l4 l6 f4 f6 el nn)
qed

theorem Max_fair_split_witness:
  "list_all (\<lambda>x. isIPv4 x \<or> isIPv6 x) (elems scenario) \<and>
   int (length (filter isIPv4 (elems scenario))) = 3 \<and>
   int (length (filter isIPv6 (elems scenario))) = 2 \<and>
   (\<exists>r. MaxAddrsFilter 3 (Some scenario) = Inr r \<and> same_family scenario r \<and>
        int (length (elems_of r)) = 3 \<and>
        filter isIPv4 (elems_of r) = [TCP_addr v4a, TCP_addr v4b] \<and>
        filter isIPv6 (elems_of r) = [TCP_addr v6a] \<and>
        elems_of r = [TCP_addr v4a, TCP_addr v4b, TCP_addr v6a])"
proof -
  have fam: "\<forall>x \<in> set (elems scenario). isIPv4 x \<or> isIPv6 x"
    by (simp add: example_defs)
  have n4: "(3::int) = int (length (filter isIPv4 (elems scenario)))"
    by (simp add: example_defs)
  have n6: "(2::int) = int (length (filter isIPv6 (elems scenario)))"
    by (simp add: example_defs)
  have t4: "take (nat 2) (filter isIPv4 (elems scenario)) = [TCP_addr v4a, TCP_addr v4b]"
    by (simp add: example_defs)
  have t6: "take (nat 1) (filter isIPv6 (elems scenario)) = [TCP_addr v6a]"
    by (simp add: example_defs)
  have e: "earliest (nat 2) (nat 1) (elems scenario) = [TCP_addr v4a, TCP_addr v4b, TCP_addr v6a]"
    by (simp add: earliest_def example_defs)
  from Max_fair_split [OF fam n4 n6, of 3 1 2 1]
  have "\<exists>r. MaxAddrsFilter 3 (Some scenario) = Inr r \<and> same_family scenario r \<and>
           int (length (elems_of r)) = min 3 (3 + 2) \<and>
           int (length (filter isIPv4 (elems_of r))) = 2 \<and>
           int (length (filter isIPv6 (elems_of r))) = 1 \<and>
           filter isIPv4 (elems_of r) = take (nat 2) (filter isIPv4 (elems scenario)) \<and>
           filter isIPv6 (elems_of r) = take (nat 1) (filter isIPv6 (elems scenario)) \<and>
           elems_of r = earliest (nat 2) (nat 1) (elems scenario) \<and>
           (r = None \<longleftrightarrow> (3::int) = 0)"
    by simp
  then obtain r where "MaxAddrsFilter 3 (Some scenario) = Inr r" "same_family scenario r"
     "int (length (elems_of r)) = min 3 (3 + 2)"
     "filter isIPv4 (elems_of r) = take (nat 2) (filter isIPv4 (elems scenario))"
     "filter isIPv6 (elems_of r) = take (nat 1) (filter isIPv6 (elems scenario))"
     "elems_of r = earliest (nat 2) (nat 1) (elems scenario)"
    by (elim exE conjE)
  then have "\<exists>r. MaxAddrsFilter 3 (Some scenario) = Inr r \<and> same_family scenario r \<and>
        int (length (elems_of r)) = 3 \<and>
        filter isIPv4 (elems_of r) = [TCP_addr v4a, TCP_addr v4b] \<and>
        filter isIPv6 (elems_of r) = [TCP_addr v6a] \<and>
        elems_of r = [TCP_addr v4a, TCP_addr v4b, TCP_addr v6a]"
    unfolding t4 t6 e by (intro exI [of _ r] conjI) simp_all
  with fam n4 n6 show ?thesis by (simp add: list_all_iff)
qed

section \<open>The first address of a family\<close>

lemma find_nth_upt:
  "map_option (nth xs) (find (\<lambda>j. P (xs ! j)) [0..<length xs]) = find P xs"
proof (cases "find (\<lambda>j. P (xs ! j)) [0..<length xs]")
  case None
  then have "\<forall>j < length xs. \<not> P (xs ! j)"
    by (simp add: find_None_iff)
  then have "find P xs = None"
    by (auto simp: find_None_iff in_set_conv_nth)
  with None show ?thesis by simp
next
  case (Some j)
  then have "j < length xs \<and> P (xs ! j) \<and> (\<forall>k < j. \<not> P (xs ! k))"
    by (auto simp: find_Some_iff)
  then have "find P xs = Some (xs ! j)"
    unfolding find_Some_iff by blast
  with Some show ?thesis by simp
qed

lemma find_upt_less:
  "find p [k..<n] = Some j \<Longrightarrow> k \<le> j \<and> j < n"
  by (auto simp: find_Some_iff)

lemma FirstIP_loop_eq:
  assumes "0 \<le> i" "i \<le> int (length (elems c))"
  shows "FirstIP_loop w (Some c) (int (length (elems c))) i =
    Inr (case find (\<lambda>j. int (length (addr_IP (elems c ! j))) = w) [nat i..<length (elems c)] of
           None \<Rightarrow> None | Some j \<Rightarrow> acc c [j])"
  using assms
proof (induction "length (elems c) - nat i" arbitrary: i)
  case 0
  then have "i = int (length (elems c))" by simp
  then show ?case by (subst FirstIP_loop.simps) simp
next
  case (Suc k)
  then have lt: "i < int (length (elems c))" and k: "k = length (elems c) - nat (i + 1)"
    by linarith+
  show ?case
    using Suc.hyps(1) [OF k] lt Suc.prems
    by (subst FirstIP_loop.simps) (simp add: upt_step)
qed

lemma Default_loop_eq:
  assumes "0 \<le> i" "i \<le> int (length (elems c))" "- 1 \<le> ipv6" "ipv6 < int (length (elems c))"
  shows "Default_loop (Some c) (int (length (elems c))) ipv6 i =
    Inr (case find (\<lambda>j. isIPv4 (elems c ! j)) [nat i..<length (elems c)] of
           Some j \<Rightarrow> acc c [j]
         | None \<Rightarrow>
             if 0 \<le> ipv6 then acc c [nat ipv6]
             else (case find (\<lambda>j. isIPv6 (elems c ! j)) [nat i..<length (elems c)] of
                     Some j \<Rightarrow> acc c [j] | None \<Rightarrow> None))"
  using assms
proof (induction "length (elems c) - nat i" arbitrary: i ipv6)
  case 0
  then have "i = int (length (elems c))" by simp
  with "0.prems" show ?case by (subst Default_loop.simps) auto
next
  case (Suc k)
  then have lt: "i < int (length (elems c))" and k: "k = length (elems c) - nat (i + 1)"
    by linarith+
  note IH = Suc.hyps(1) [OF k]
  have a: "Default_loop (Some c) (int (length (elems c))) i (i + 1) =
    Inr (case find (\<lambda>j. isIPv4 (elems c ! j)) [nat (i + 1)..<length (elems c)] of
           Some j \<Rightarrow> acc c [j] | None \<Rightarrow> acc c [nat i])"
    using IH [of i] lt Suc.prems by simp
  have b: "Default_loop (Some c) (int (length (elems c))) ipv6 (i + 1) =
    Inr (case find (\<lambda>j. isIPv4 (elems c ! j)) [nat (i + 1)..<length (elems c)] of
           Some j \<Rightarrow> acc c [j]
         | None \<Rightarrow>
             if 0 \<le> ipv6 then acc c [nat ipv6]
             else (case find (\<lambda>j. isIPv6 (elems c ! j)) [nat (i + 1)..<length (elems c)] of
                     Some j \<Rightarrow> acc c [j] | None \<Rightarrow> None))"
    using IH [of ipv6] lt Suc.prems by simp
  show ?case
    using lt Suc.prems not_both_families [of "elems c ! nat i"]
    by (subst Default_loop.simps)
       (auto simp: a b upt_step isIPv4_def isIPv6_def Let_def split: option.splits)
qed

lemma Default_Some:
  "DefaultAddrsFilter (Some c) =
     Inr (if length (elems c) \<le> 1 then Some c
          else case find (\<lambda>j. isIPv4 (elems c ! j)) [0..<length (elems c)] of
                 Some j \<Rightarrow> acc c [j]
               | None \<Rightarrow>
                   (case find (\<lambda>j. isIPv6 (elems c ! j)) [0..<length (elems c)] of
                      Some j \<Rightarrow> acc c [j] | None \<Rightarrow> None))"
proof -
  have "Default_loop (Some c) (int (length (elems c))) (- 1) 0 =
    Inr (case find (\<lambda>j. isIPv4 (elems c ! j)) [0..<length (elems c)] of
           Some j \<Rightarrow> acc c [j]
         | None \<Rightarrow>
             (case find (\<lambda>j. isIPv6 (elems c ! j)) [0..<length (elems c)] of
                Some j \<Rightarrow> acc c [j] | None \<Rightarrow> None))"
    using Default_loop_eq [of 0 c "- 1"] by (simp split: option.splits)
  then show ?thesis
    by (simp add: DefaultAddrsFilter_def)
qed

lemma find_index_cases:
  obtains (none) "find (\<lambda>j. P (xs ! j)) [0..<length xs] = None" "find P xs = None"
  | (some) j where "find (\<lambda>j. P (xs ! j)) [0..<length xs] = Some j" "j < length xs"
      "find P xs = Some (xs ! j)"
proof (cases "find (\<lambda>j. P (xs ! j)) [0..<length xs]")
  case None
  with find_nth_upt [of xs P] have "find P xs = None" by simp
  with None show ?thesis by (rule none)
next
  case (Some j)
  with find_nth_upt [of xs P] have "find P xs = Some (xs ! j)" by simp
  moreover have "j < length xs" using find_upt_less [OF Some] by simp
  ultimately show ?thesis using Some by (intro some)
qed

text \<open>
  Claim C2. A collection with at most one element is returned unchanged. Otherwise the
  result is the singleton of the first element whose IP has length 4; if there is none,
  the singleton of the first element whose IP has length 16; and if there is neither, the
  result is absent. The result is of the concrete type of the input.
\<close>

theorem Default_prefers_IPv4:
  "\<exists>r. DefaultAddrsFilter (Some c) = Inr r \<and> same_family c r \<and>
     (if length (elems c) \<le> 1 then r = Some c
      else (case find isIPv4 (elems c) of
              Some x \<Rightarrow> elems_of r = [x]
            | None \<Rightarrow>
                (case find isIPv6 (elems c) of
                   Some y \<Rightarrow> elems_of r = [y]
                 | None \<Rightarrow> r = None)))"
proof (cases "length (elems c) \<le> 1")
  case True
  then show ?thesis by (simp add: Default_Some)
next
  case False
  show ?thesis
  proof (cases rule: find_index_cases [of isIPv4 "elems c"])
    case (some j)
    with False show ?thesis
      by (simp add: Default_Some elems_pick)
  next
    case none
    note n4 = this
    show ?thesis
    proof (cases rule: find_index_cases [of isIPv6 "elems c"])
      case (some j)
      with False n4 show ?thesis
        by (simp add: Default_Some elems_pick)
    next
      case none
      with False n4 show ?thesis
        by (simp add: Default_Some)
    qed
  qed
qed

theorem Default_prefers_IPv4_witness:
  "(\<exists>r. DefaultAddrsFilter (Some scenario) = Inr r \<and> elems_of r = [TCP_addr v4a]) \<and>
   (\<exists>r. DefaultAddrsFilter (Some (tcpAddrs [v6a, v4b, v6b])) = Inr r \<and> elems_of r = [TCP_addr v4b]) \<and>
   (\<exists>r. DefaultAddrsFilter (Some (tcpAddrs [v6a, v6b])) = Inr r \<and> elems_of r = [TCP_addr v6a]) \<and>
   DefaultAddrsFilter (Some (unixAddrs [sock, sock])) = Inr None \<and>
   DefaultAddrsFilter (Some (unixAddrs [sock])) = Inr (Some (unixAddrs [sock]))"
proof (intro conjI)
  show "\<exists>r. DefaultAddrsFilter (Some scenario) = Inr r \<and> elems_of r = [TCP_addr v4a]"
    using Default_prefers_IPv4 [of scenario] by (auto simp: example_defs)
  show "\<exists>r. DefaultAddrsFilter (Some (tcpAddrs [v6a, v4b, v6b])) = Inr r \<and> elems_of r = [TCP_addr v4b]"
    using Default_prefers_IPv4 [of "tcpAddrs [v6a, v4b, v6b]"] by (auto simp: example_defs)
  show "\<exists>r. DefaultAddrsFilter (Some (tcpAddrs [v6a, v6b])) = Inr r \<and> elems_of r = [TCP_addr v6a]"
    using Default_prefers_IPv4 [of "tcpAddrs [v6a, v6b]"] by (auto simp: example_defs)
  show "DefaultAddrsFilter (Some (unixAddrs [sock, sock])) = Inr None"
    using Default_prefers_IPv4 [of "unixAddrs [sock, sock]"] by (auto simp: example_defs)
  show "DefaultAddrsFilter (Some (unixAddrs [sock])) = Inr (Some (unixAddrs [sock]))"
    using Default_prefers_IPv4 [of "unixAddrs [sock]"] by (auto simp: example_defs)
qed

section \<open>FirstEachAddrsFilter\<close>

lemma FirstEach_loop_eq:
  assumes "0 \<le> i" "i \<le> int (length (elems c))"
  shows "FirstEach_loop (Some c) (int (length (elems c))) ipv4 ipv6 (acc c js) i =
    Inr (stop_scan (\<lambda>j. isIPv4 (elems c ! j)) (\<lambda>j. isIPv6 (elems c ! j)) ipv4 ipv6
           (int (length (elems c))) [nat i..<length (elems c)],
         acc c (js @ select_scan (\<lambda>j. isIPv4 (elems c ! j)) (\<lambda>j. isIPv6 (elems c ! j))
                       (if ipv4 then 0 else 1) (if ipv6 then 0 else 1)
                       [nat i..<length (elems c)]))"
  using assms
proof (induction "length (elems c) - nat i" arbitrary: i ipv4 ipv6 js)
  case 0
  then have "i = int (length (elems c))" by simp
  then show ?case by (subst FirstEach_loop.simps) simp
next
  case (Suc k)
  then have lt: "i < int (length (elems c))" and k: "k = length (elems c) - nat (i + 1)"
    by linarith+
  note IH = Suc.hyps(1) [OF k]
  have nn: "int (nat i) = i" using Suc.prems by simp
  show ?case
    using IH [of True ipv6 "js @ [nat i]"] IH [of ipv4 True "js @ [nat i]"] IH [of ipv4 ipv6 js]
      lt Suc.prems not_both_families [of "elems c ! nat i"]
    by (subst FirstEach_loop.simps)
       (auto simp: upt_step nn isIPv4_def isIPv6_def Let_def select_scan_nonpos)
qed

lemma stop_scan_spec:
  assumes "k \<le> n" "ipv4 = (\<exists>j < k. p4 j)" "ipv6 = (\<exists>j < k. p6 j)" "\<not> (ipv4 \<and> ipv6)"
  shows "if (\<exists>j < n. p4 j) \<and> (\<exists>j < n. p6 j)
         then \<exists>s. stop_scan p4 p6 ipv4 ipv6 (int n) [k..<n] = int s \<and> k \<le> s \<and> s < n \<and>
                  (\<exists>j \<le> s. p4 j) \<and> (\<exists>j \<le> s. p6 j) \<and> \<not> ((\<exists>j < s. p4 j) \<and> (\<exists>j < s. p6 j))
         else stop_scan p4 p6 ipv4 ipv6 (int n) [k..<n] = int n"
  using assms
proof (induction "n - k" arbitrary: k ipv4 ipv6)
  case 0
  then have "k = n" by simp
  with "0.prems" show ?case by auto
next
  case (Suc m)
  then have lt: "k < n" and m: "m = n - Suc k" by linarith+
  have up: "[k..<n] = k # [Suc k..<n]"
    using lt by (simp add: upt_conv_Cons)
  have s4: "(ipv4 \<or> p4 k) = (\<exists>j<Suc k. p4 j)" and s6: "(ipv6 \<or> p6 k) = (\<exists>j<Suc k. p6 j)"
    using Suc.prems(2,3) by (auto simp: less_Suc_eq)
  show ?case
  proof (cases "(ipv4 \<or> p4 k) \<and> (ipv6 \<or> p6 k)")
    case True
    then have both: "(\<exists>j \<le> k. p4 j) \<and> (\<exists>j \<le> k. p6 j)"
      using s4 s6 by (auto simp: less_Suc_eq_le)
    then have "(\<exists>j < n. p4 j) \<and> (\<exists>j < n. p6 j)"
      using lt by (meson le_less_trans)
    moreover have "\<not> ((\<exists>j < k. p4 j) \<and> (\<exists>j < k. p6 j))"
      using Suc.prems(2,3,4) by simp
    moreover have "stop_scan p4 p6 ipv4 ipv6 (int n) [k..<n] = int k"
      using True by (simp add: up)
    ultimately show ?thesis
      using lt both by auto
  next
    case False
    have step: "stop_scan p4 p6 ipv4 ipv6 (int n) [k..<n] =
                stop_scan p4 p6 (ipv4 \<or> p4 k) (ipv6 \<or> p6 k) (int n) [Suc k..<n]"
      unfolding up by (simp only: stop_scan.simps if_not_P [OF False])
    have IH: "if (\<exists>j < n. p4 j) \<and> (\<exists>j < n. p6 j)
         then \<exists>s. stop_scan p4 p6 (ipv4 \<or> p4 k) (ipv6 \<or> p6 k) (int n) [Suc k..<n] = int s \<and>
                  Suc k \<le> s \<and> s < n \<and>
                  (\<exists>j \<le> s. p4 j) \<and> (\<exists>j \<le> s. p6 j) \<and> \<not> ((\<exists>j < s. p4 j) \<and> (\<exists>j < s. p6 j))
         else stop_scan p4 p6 (ipv4 \<or> p4 k) (ipv6 \<or> p6 k) (int n) [Suc k..<n] = int n"
      using lt False by (intro Suc.hyps(1) [OF m] s4 s6) simp_all
    show ?thesis
    proof (cases "(\<exists>j < n. p4 j) \<and> (\<exists>j < n. p6 j)")
      case True
      with IH obtain s where
        "stop_scan p4 p6 (ipv4 \<or> p4 k) (ipv6 \<or> p6 k) (int n) [Suc k..<n] = int s"
        "Suc k \<le> s" "s < n" "\<exists>j \<le> s. p4 j" "\<exists>j \<le> s. p6 j"
        "\<not> ((\<exists>j < s. p4 j) \<and> (\<exists>j < s. p6 j))"
        by auto
      then have "stop_scan p4 p6 ipv4 ipv6 (int n) [k..<n] = int s \<and> k \<le> s \<and> s < n \<and>
                  (\<exists>j \<le> s. p4 j) \<and> (\<exists>j \<le> s. p6 j) \<and> \<not> ((\<exists>j < s. p4 j) \<and> (\<exists>j < s. p6 j))"
        unfolding step by simp
      then show ?thesis using True by auto
    next
      case False
      with IH show ?thesis unfolding step by simp
    qed
  qed
qed

lemma ex_nth_iff: "(\<exists>j<length xs. P (xs ! j)) \<longleftrightarrow> (\<exists>x \<in> set xs. P x)"
  by (metis in_set_conv_nth)

lemma FirstEach_Some:
  "FirstEachAddrsFilter (Some c) =
     Inr (if length (elems c) \<le> 1 then Some c
          else acc c (select_scan (\<lambda>j. isIPv4 (elems c ! j)) (\<lambda>j. isIPv6 (elems c ! j)) 1 1
                        [0..<length (elems c)]))"
  using FirstEach_loop_eq [of 0 c False False "[]"] by (simp add: FirstEachAddrsFilter_def)

text \<open>
  Claim C6. A collection with at most one element is returned unchanged, whatever the IP
  of its element is. For a collection with more than one element the result holds the
  first element with a 4-byte IP and the first element with a 16-byte IP, at most one of
  each and nothing else, in the order in which the two stand in the input. The loop is
  left at the first index at which both have been seen: the elements up to and including
  that index hold an address of each family, the elements before it do not; it runs to the
  end only when the input lacks one of the families.
\<close>

theorem FirstEach_first_of_each_family:
  "(length (elems c) \<le> 1 \<longrightarrow> FirstEachAddrsFilter (Some c) = Inr (Some c)) \<and>
   (1 < length (elems c) \<longrightarrow>
      (\<exists>stop r.
         FirstEach_loop (Some c) (int (length (elems c))) False False None 0 = Inr (int stop, r) \<and>
         FirstEachAddrsFilter (Some c) = Inr r \<and> same_family c r \<and>
         elems_of r = earliest 1 1 (elems c) \<and>
         filter isIPv4 (elems_of r) = take 1 (filter isIPv4 (elems c)) \<and>
         filter isIPv6 (elems_of r) = take 1 (filter isIPv6 (elems c)) \<and>
         (\<forall>x \<in> set (elems_of r). isIPv4 x \<or> isIPv6 x) \<and>
         (if (\<exists>x \<in> set (elems c). isIPv4 x) \<and> (\<exists>x \<in> set (elems c). isIPv6 x)
          then stop < length (elems c) \<and>
               (\<exists>j \<le> stop. isIPv4 (elems c ! j)) \<and> (\<exists>j \<le> stop. isIPv6 (elems c ! j)) \<and>
               \<not> ((\<exists>j < stop. isIPv4 (elems c ! j)) \<and> (\<exists>j < stop. isIPv6 (elems c ! j)))
          else stop = length (elems c))))"
proof (intro conjI impI)
  assume "length (elems c) \<le> 1"
  then show "FirstEachAddrsFilter (Some c) = Inr (Some c)"
    by (simp add: FirstEach_Some)
next
  assume len: "1 < length (elems c)"
  let ?xs = "elems c"
  let ?p4 = "\<lambda>j. isIPv4 (?xs ! j)" and ?p6 = "\<lambda>j. isIPv6 (?xs ! j)"
  let ?r = "acc c (select_scan ?p4 ?p6 1 1 [0..<length ?xs])"
  let ?both = "(\<exists>x \<in> set ?xs. isIPv4 x) \<and> (\<exists>x \<in> set ?xs. isIPv6 x)"
  have loop: "FirstEach_loop (Some c) (int (length ?xs)) False False None 0 =
        Inr (stop_scan ?p4 ?p6 False False (int (length ?xs)) [0..<length ?xs], ?r)"
    using FirstEach_loop_eq [of 0 c False False "[]"] by simp
  have run: "FirstEachAddrsFilter (Some c) = Inr ?r"
    using len by (simp add: FirstEach_Some)
  have el: "elems_of ?r = earliest 1 1 ?xs"
    using elems_of_acc_select_scan [of c 1 1] by simp
  have f4: "filter isIPv4 (elems_of ?r) = take 1 (filter isIPv4 ?xs)"
   and f6: "filter isIPv6 (elems_of ?r) = take 1 (filter isIPv6 ?xs)"
    unfolding el by (simp_all add: filter_earliest)
  have fam: "\<forall>x \<in> set (elems_of ?r). isIPv4 x \<or> isIPv6 x"
    unfolding el using set_earliest by blast
  have sp: "if (\<exists>j<length ?xs. ?p4 j) \<and> (\<exists>j<length ?xs. ?p6 j)
         then \<exists>s. stop_scan ?p4 ?p6 False False (int (length ?xs)) [0..<length ?xs] = int s \<and>
                  0 \<le> s \<and> s < length ?xs \<and>
                  (\<exists>j \<le> s. ?p4 j) \<and> (\<exists>j \<le> s. ?p6 j) \<and> \<not> ((\<exists>j < s. ?p4 j) \<and> (\<exists>j < s. ?p6 j))
         else stop_scan ?p4 ?p6 False False (int (length ?xs)) [0..<length ?xs] = int (length ?xs)"
    by (rule stop_scan_spec) simp_all
  obtain stop where stop:
    "stop_scan ?p4 ?p6 False False (int (length ?xs)) [0..<length ?xs] = int stop"
    "if ?both
     then stop < length ?xs \<and> (\<exists>j \<le> stop. ?p4 j) \<and> (\<exists>j \<le> stop. ?p6 j) \<and>
          \<not> ((\<exists>j < stop. ?p4 j) \<and> (\<exists>j < stop. ?p6 j))
     else stop = length ?xs"
  proof (cases ?both)
    case True
    then have "(\<exists>j<length ?xs. ?p4 j) \<and> (\<exists>j<length ?xs. ?p6 j)"
      by (simp add: ex_nth_iff)
    with sp obtain s where s: "stop_scan ?p4 ?p6 False False (int (length ?xs)) [0..<length ?xs] = int s"
      "s < length ?xs" "\<exists>j \<le> s. ?p4 j" "\<exists>j \<le> s. ?p6 j" "\<not> ((\<exists>j < s. ?p4 j) \<and> (\<exists>j < s. ?p6 j))"
      by auto
    show ?thesis
    proof (rule that [of s])
      show "stop_scan ?p4 ?p6 False False (int (length ?xs)) [0..<length ?xs] = int s"
        by (fact s(1))
      show "if ?both
            then s < length ?xs \<and> (\<exists>j \<le> s. ?p4 j) \<and> (\<exists>j \<le> s. ?p6 j) \<and>
                 \<not> ((\<exists>j < s. ?p4 j) \<and> (\<exists>j < s. ?p6 j))
            else s = length ?xs"
        using True s(2-5) by simp
    qed
  next
    case False
    then have "\<not> ((\<exists>j<length ?xs. ?p4 j) \<and> (\<exists>j<length ?xs. ?p6 j))"
      by (simp add: ex_nth_iff)
    with sp have e: "stop_scan ?p4 ?p6 False False (int (length ?xs)) [0..<length ?xs] = int (length ?xs)"
      by simp
    show ?thesis
    proof (rule that [of "length ?xs"])
      show "stop_scan ?p4 ?p6 False False (int (length ?xs)) [0..<length ?xs] = int (length ?xs)"
        by (fact e)
      show "if ?both
            then length ?xs < length ?xs \<and> (\<exists>j \<le> length ?xs. ?p4 j) \<and> (\<exists>j \<le> length ?xs. ?p6 j) \<and>
                 \<not> ((\<exists>j < length ?xs. ?p4 j) \<and> (\<exists>j < length ?xs. ?p6 j))
            else length ?xs = length ?xs"
        using False by simp
    qed
  qed
  show "\<exists>stop r.
         FirstEach_loop (Some c) (int (length (elems c))) False False None 0 = Inr (int stop, r) \<and>
         FirstEachAddrsFilter (Some c) = Inr r \<and> same_family c r \<and>
         elems_of r = earliest 1 1 (elems c) \<and>
         filter isIPv4 (elems_of r) = take 1 (filter isIPv4 (elems c)) \<and>
         filter isIPv6 (elems_of r) = take 1 (filter isIPv6 (elems c)) \<and>
         (\<forall>x \<in> set (elems_of r). isIPv4 x \<or> isIPv6 x) \<and>
         (if (\<exists>x \<in> set (elems c). isIPv4 x) \<and> (\<exists>x \<in> set (elems c). isIPv6 x)
          then stop < length (elems c) \<and>
               (\<exists>j \<le> stop. isIPv4 (elems c ! j)) \<and> (\<exists>j \<le> stop. isIPv6 (elems c ! j)) \<and>
               \<not> ((\<exists>j < stop. isIPv4 (elems c ! j)) \<and> (\<exists>j < stop. isIPv6 (elems c ! j)))
          else stop = length (elems c))"
    apply (rule exI [of _ stop])
    apply (rule exI [of _ ?r])
    apply (intro conjI run same_family_acc el f4 f6 fam stop(2))
    apply (simp only: loop stop(1))
    done
qed


theorem FirstEach_first_of_each_family_witness:
  "1 < length (elems scenario) \<and>
   (\<exists>x \<in> set (elems scenario). isIPv4 x) \<and> (\<exists>x \<in> set (elems scenario). isIPv6 x) \<and>
   (\<exists>r. FirstEach_loop (Some scenario) 5 False False None 0 = Inr (3, r) \<and>
        FirstEachAddrsFilter (Some scenario) = Inr r \<and>
        elems_of r = [TCP_addr v4a, TCP_addr v6a])"
proof -
  let ?xs = "elems scenario"
  have len: "1 < length ?xs" "int (length ?xs) = 5"
    by (simp_all add: scenario_def)
  have has: "(\<exists>x \<in> set ?xs. isIPv4 x) \<and> (\<exists>x \<in> set ?xs. isIPv6 x)"
    by (simp add: example_defs)
  have e: "earliest 1 1 ?xs = [TCP_addr v4a, TCP_addr v6a]"
    by (simp add: earliest_def example_defs)
  have v4: "isIPv4 (?xs ! 0)" and v6: "isIPv6 (?xs ! 3)"
    by (simp_all add: example_defs)
  have no6: "\<not> isIPv6 (?xs ! j)" if "j < 3" for j
  proof -
    from that have "j = 0 \<or> j = 1 \<or> j = 2" by arith
    then show ?thesis by (auto simp: example_defs)
  qed
  from FirstEach_first_of_each_family [of scenario] len(1) has
  obtain stop r where
    loop: "FirstEach_loop (Some scenario) (int (length ?xs)) False False None 0 = Inr (int stop, r)"
    and run: "FirstEachAddrsFilter (Some scenario) = Inr r"
    and el: "elems_of r = earliest 1 1 ?xs"
    and s6: "\<exists>j \<le> stop. isIPv6 (?xs ! j)"
    and nb: "\<not> ((\<exists>j < stop. isIPv4 (?xs ! j)) \<and> (\<exists>j < stop. isIPv6 (?xs ! j)))"
    by auto
  have "\<not> stop < 3"
    using s6 no6 by (meson le_less_trans)
  moreover have "\<not> 3 < stop"
  proof
    assume "3 < stop"
    then have "(\<exists>j < stop. isIPv4 (?xs ! j)) \<and> (\<exists>j < stop. isIPv6 (?xs ! j))"
      using v4 v6 by (meson less_trans zero_less_numeral)
    with nb show False by contradiction
  qed
  ultimately have "int stop = 3" by simp
  with loop run el have "FirstEach_loop (Some scenario) 5 False False None 0 = Inr (3, r) \<and>
        FirstEachAddrsFilter (Some scenario) = Inr r \<and>
        elems_of r = [TCP_addr v4a, TCP_addr v6a]"
    unfolding e len(2) by simp
  then have "\<exists>r. FirstEach_loop (Some scenario) 5 False False None 0 = Inr (3, r) \<and>
        FirstEachAddrsFilter (Some scenario) = Inr r \<and>
        elems_of r = [TCP_addr v4a, TCP_addr v6a]"
    by (rule exI)
  with len(1) has show ?thesis by (intro conjI) simp_all
qed

section \<open>No filter lengthens a collection\<close>

lemma Shuffle_loop_eq:
  assumes "\<forall>i \<in> set is. 0 \<le> i \<and> i < int (length (elems c))"
  shows "Shuffle_loop (Some c) (acc c js) is = Inr (acc c (js @ map nat is))"
  using assms
proof (induction "is" arbitrary: js)
  case Nil
  show ?case by simp
next
  case (Cons i "is")
  then show ?case
    using Cons.IH [of "js @ [nat i]"] by simp
qed

lemma is_Perm_length:
  assumes "is_Perm Perm" "0 \<le> n"
  shows "length (Perm n) = nat n" and "\<forall>i \<in> set (Perm n). 0 \<le> i \<and> i < n"
proof -
  from assms have d: "distinct (Perm n)" and s: "set (Perm n) = {0..<n}"
    by (simp_all add: is_Perm_def)
  from d have "length (Perm n) = card (set (Perm n))"
    by (simp add: distinct_card)
  then show "length (Perm n) = nat n" by (simp add: s)
  show "\<forall>i \<in> set (Perm n). 0 \<le> i \<and> i < n" by (simp add: s)
qed

lemma Shuffle_Some:
  assumes "is_Perm Perm"
  shows "ShuffleAddrsFilter Perm (Some c) =
     Inr (if length (elems c) \<le> 1 then Some c
          else acc c (map nat (Perm (int (length (elems c))))))"
  using Shuffle_loop_eq [of "Perm (int (length (elems c)))" c "[]"]
    is_Perm_length(2) [OF assms, of "int (length (elems c))"]
  by (simp add: ShuffleAddrsFilter_def)

lemma First_Some:
  "FirstAddrsFilter (Some c) = Inr (if length (elems c) \<le> 1 then Some c else acc c [0])"
proof (cases "length (elems c) \<le> 1")
  case True
  then show ?thesis by (simp add: FirstAddrsFilter_def)
next
  case False
  then have "Append (Some c) None 0 = Inr (acc c [nat 0])"
    by (intro Append_None) auto
  with False show ?thesis by (simp add: FirstAddrsFilter_def)
qed

lemma FirstIP_bound:
  "\<exists>r. FirstIP_loop w (Some c) (int (length (elems c))) 0 = Inr r \<and>
       length (elems_of r) \<le> length (elems c)"
proof (cases "find (\<lambda>j. int (length (addr_IP (elems c ! j))) = w) [0..<length (elems c)]")
  case None
  then show ?thesis using FirstIP_loop_eq [of 0 c w] by simp
next
  case (Some j)
  then have "j < length (elems c)" using find_upt_less [OF Some] by simp
  then show ?thesis using FirstIP_loop_eq [of 0 c w] Some by simp
qed

lemma Default_bound:
  "\<exists>r. DefaultAddrsFilter (Some c) = Inr r \<and> length (elems_of r) \<le> length (elems c)"
  unfolding Default_Some by (auto split: option.splits)

lemma First_bound:
  "\<exists>r. FirstAddrsFilter (Some c) = Inr r \<and> length (elems_of r) \<le> length (elems c)"
  unfolding First_Some by auto

lemma FirstEach_bound:
  "\<exists>r. FirstEachAddrsFilter (Some c) = Inr r \<and> length (elems_of r) \<le> length (elems c)"
  unfolding FirstEach_Some
  using length_select_scan [of "\<lambda>j. isIPv4 (elems c ! j)" "\<lambda>j. isIPv6 (elems c ! j)" 1 1
      "[0..<length (elems c)]"]
  by auto

lemma AllIP_bound:
  "\<exists>r. AllIP_loop w (Some c) (int (length (elems c))) None 0 = Inr r \<and>
       length (elems_of r) \<le> length (elems c)"
  unfolding AllIP_filter_eq
  using length_filter_le [of "\<lambda>j. int (length (addr_IP (elems c ! j))) = w" "[0..<length (elems c)]"]
  by simp

lemma Max_bound:
  "\<exists>r. MaxAddrsFilter max' (Some c) = Inr r \<and> length (elems_of r) \<le> length (elems c)"
  unfolding MaxAddrsFilter_eq
  using length_select_scan [of "\<lambda>j. isIPv4 (elems c ! j)" "\<lambda>j. isIPv6 (elems c ! j)"
      "fst (Max_quota_of max' (elems c))" "snd (Max_quota_of max' (elems c))"
      "[0..<length (elems c)]"]
  by auto

lemma Reverse_bound:
  "\<exists>r. ReverseAddrsFilter (Some c) = Inr r \<and> length (elems_of r) \<le> length (elems c)"
  unfolding Reverse_Some by auto

lemma Shuffle_bound:
  assumes "is_Perm Perm"
  shows "\<exists>r. ShuffleAddrsFilter Perm (Some c) = Inr r \<and> length (elems_of r) \<le> length (elems c)"
  unfolding Shuffle_Some [OF assms]
  using is_Perm_length(1) [OF assms, of "int (length (elems c))"] by auto

lemma Compose_bound:
  assumes "\<forall>f \<in> set filters. \<forall>a. \<exists>r. f a = Inr r \<and> length (elems_of r) \<le> length (elems_of a)"
  shows "\<exists>r. ComposeAddrsFilters filters a = Inr r \<and> length (elems_of r) \<le> length (elems_of a)"
  using assms
proof (induction filters arbitrary: a)
  case Nil
  show ?case by simp
next
  case (Cons f filters)
  then obtain b where b: "f a = Inr b" "length (elems_of b) \<le> length (elems_of a)"
    by (meson list.set_intros(1))
  from Cons obtain r where "ComposeAddrsFilters filters b = Inr r"
    "length (elems_of r) \<le> length (elems_of b)"
    by (meson list.set_intros(2))
  with b show ?case by simp
qed

text \<open>
  Claim C5. For every filter of the library, every \<open>MaxAddrsFilter max\<close> and every
  composition included, and every input, the filter returns (it does not panic) and the
  length of its result is at most the length of the input, the absent collection counting
  as length 0.
\<close>

theorem filters_never_lengthen:
  "library_filter f \<Longrightarrow>
     \<exists>r. f addrs = Inr r \<and> length (elems_of r) \<le> length (elems_of addrs)"
proof (induction arbitrary: addrs rule: library_filter.induct)
  case Default
  show ?case
    by (cases addrs) (simp_all add: Default_bound, simp add: DefaultAddrsFilter_def)
next
  case No
  show ?case by (simp add: NoAddrsFilter_def)
next
  case First
  show ?case
    by (cases addrs) (simp_all add: First_bound, simp add: FirstAddrsFilter_def)
next
  case FirstEach
  show ?case
    by (cases addrs) (simp_all add: FirstEach_bound, simp add: FirstEachAddrsFilter_def)
next
  case FirstIPv4
  show ?case
    using FirstIP_bound [of IPv4len] by (cases addrs) (simp_all add: FirstIPv4AddrsFilter_def)
next
  case FirstIPv6
  show ?case
    using FirstIP_bound [of IPv6len] by (cases addrs) (simp_all add: FirstIPv6AddrsFilter_def)
next
  case IPv4
  show ?case
    using AllIP_bound [of IPv4len] by (cases addrs) (simp_all add: IPv4AddrsFilter_def)
next
  case IPv6
  show ?case
    using AllIP_bound [of IPv6len] by (cases addrs) (simp_all add: IPv6AddrsFilter_def)
next
  case (Max max')
  show ?case
    by (cases addrs) (simp_all add: Max_bound, simp add: MaxAddrsFilter_def)
next
  case Reverse
  show ?case
    by (cases addrs) (simp_all add: Reverse_bound, simp add: ReverseAddrsFilter_def)
next
  case (Shuffle Perm)
  then show ?case
    by (cases addrs) (simp_all add: Shuffle_bound, simp add: ShuffleAddrsFilter_def)
next
  case (Compose filters)
  then show ?case by (intro Compose_bound) blast
qed

theorem filters_never_lengthen_witness:
  "library_filter (ComposeAddrsFilters [ShuffleAddrsFilter descending, MaxAddrsFilter 3]) \<and>
   (\<exists>r. ComposeAddrsFilters [ShuffleAddrsFilter descending, MaxAddrsFilter 3] (Some scenario)
          = Inr r \<and> length (elems_of r) \<le> 5)"
proof -
  have l: "library_filter (ComposeAddrsFilters [ShuffleAddrsFilter descending, MaxAddrsFilter 3])"
    by (rule library_filter.Compose)
      (simp add: library_filter.Shuffle library_filter.Max is_Perm_descending)
  have "length (elems_of (Some scenario)) = 5"
    by (simp add: scenario_def)
  with filters_never_lengthen [OF l, of "Some scenario"] l show ?thesis
    by simp
qed

end
